theory Spec2Isabelle
  imports Complex_Main "HOL-Library.Multiset"
begin

section \<open>Exceptions\<close>

text \<open>
  The exceptions that the modelled code raises, catches or lets through.  \<open>QueueFull\<close>
  and \<open>QueueEmpty\<close> are \<open>queue.Full\<close> and \<open>queue.Empty\<close>; \<open>UserException\<close> stands for
  any other exception leaving a user hook.  \<open>BreakerTrippedException\<close>, which carries a
  reason, is a constructor of the result type of \<open>run\<close> below.
\<close>

datatype exn =
    QueueFull
  | QueueEmpty
  | BreakerTrippingException
  | UnconfiguredException
  | ZeroDivisionError
  | OverflowError
  | ValueError
  | RuntimeError
  | KeyboardInterrupt
  | UserException string

section \<open>MultiprocessingBreaker (multiprocessing\_breaker.py)\<close>

text \<open>
  The \<open>multiprocessing.Queue(maxsize=1)\<close> that carries the reason.  \<open>put\<close> takes the
  queue's one permit and leaves the object in a buffer of the putting process; the
  queue's feeder thread moves it into the pipe some time later; \<open>get\<close> reads the pipe
  only, and hands the permit back.  So the queue is free, or holds an object that has
  been put and not yet delivered, or holds an object in the pipe.
\<close>

datatype 'r slot = Free | Buffered 'r | Piped 'r

text \<open>
  \<open>Queue.put(obj, block=False)\<close>, the feeder thread's delivery, and
  \<open>Queue.get(block=False)\<close>: the three atomic operations on the queue.
\<close>

definition put_nowait :: "'r \<Rightarrow> 'r slot \<Rightarrow> exn + 'r slot" where
  "put_nowait obj s = (case s of Free \<Rightarrow> Inr (Buffered obj) | _ \<Rightarrow> Inl QueueFull)"

definition feed :: "'r slot \<Rightarrow> 'r slot" where
  "feed s = (case s of Buffered obj \<Rightarrow> Piped obj | _ \<Rightarrow> s)"

definition get_nowait :: "'r slot \<Rightarrow> exn + ('r \<times> 'r slot)" where
  "get_nowait s = (case s of Piped obj \<Rightarrow> Inr (obj, Free) | _ \<Rightarrow> Inl QueueEmpty)"

text \<open>
  One process's copy of the breaker.  \<open>cached\<close>, \<open>checked\<close> and \<open>granularity\<close> are plain
  attributes, private to the process holding the copy (and shared by its threads).
  \<open>event\<close> (the \<open>multiprocessing.Event\<close>) and \<open>reason\<close> (the queue) are shared by every
  copy.  Clock readings (\<open>time.monotonic()\<close>) are arguments, idealised as real numbers.
\<close>

record 'r breaker =
  cached :: bool
  checked :: real
  granularity :: real
  event :: bool
  reason :: "'r slot"

text \<open>\<open>__init__(self, granularity=0.1)\<close>, constructed at clock reading \<open>now\<close>.\<close>

definition breaker_init :: "real \<Rightarrow> real \<Rightarrow> 'r breaker" where
  "breaker_init g now =
     \<lparr>cached = False, checked = now, granularity = g, event = False, reason = Free\<rparr>"

text \<open>
  \<open>trip\<close>: the three statements of the \<open>try\<close> body run in order; \<open>queue.Full\<close> from the
  first skips the other two and is swallowed by \<open>except queue.Full: pass\<close>.
\<close>

definition trip :: "'r \<Rightarrow> 'r breaker \<Rightarrow> exn + 'r breaker" where
  "trip r b =
     (case put_nowait r (reason b) of
        Inr slot \<Rightarrow> Inr (b\<lparr>reason := slot, event := True, cached := True\<rparr>)
      | Inl e \<Rightarrow> if e = QueueFull then Inr b else Inl e)"

text \<open>
  \<open>is_tripped(granularity=None)\<close>.  \<open>now\<close> is the clock reading inside the condition,
  \<open>now'\<close> the one stored in \<open>_checked\<close>.  Returns the answer and the updated copy.
\<close>

definition is_tripped :: "real option \<Rightarrow> real \<Rightarrow> real \<Rightarrow> 'r breaker \<Rightarrow> bool \<times> 'r breaker" where
  "is_tripped g now now' b =
     (let use_granularity = (case g of None \<Rightarrow> granularity b | Some g' \<Rightarrow> g') in
      if use_granularity \<le> 0 \<or> now - checked b \<ge> use_granularity
      then (event b, b\<lparr>cached := event b, checked := now'\<rparr>)
      else (cached b, b))"

definition consume_reason :: "'r breaker \<Rightarrow> exn + ('r \<times> 'r breaker)" where
  "consume_reason b =
     (case get_nowait (reason b) of
        Inl e \<Rightarrow> Inl e
      | Inr (r, slot) \<Rightarrow> Inr (r, b\<lparr>reason := slot\<rparr>))"

text \<open>
  The effect, on this process's copy, of \<open>trip\<close> called in another process: that call
  works on the shared event and slot and on the other copy's \<open>_cached\<close>, so this copy's
  private attributes stay as they are.
\<close>

definition trip_elsewhere :: "'r \<Rightarrow> 'r breaker \<Rightarrow> 'r breaker" where
  "trip_elsewhere r b =
     (case trip r b of
        Inr b' \<Rightarrow> b'\<lparr>cached := cached b\<rparr>
      | Inl _ \<Rightarrow> b)"

text \<open>
  Traces of whole calls on one copy, each run to completion before the next begins: a
  call of \<open>trip\<close>, a \<open>trip\<close> made elsewhere, a poll with its optional granularity and
  two clock readings, or \<open>consume_reason\<close>; between calls the feeder thread may deliver
  (\<open>Feed\<close>).  And what each call gave back.
\<close>

datatype 'r breaker_op =
    Trip 'r
  | TripElsewhere 'r
  | IsTripped "real option" real real
  | ConsumeReason
  | Feed

datatype 'r breaker_outcome =
    Done
  | Answer bool
  | Reason 'r
  | Raised exn

fun breaker_call :: "'r breaker_op \<Rightarrow> 'r breaker \<Rightarrow> 'r breaker_outcome \<times> 'r breaker" where
  "breaker_call (Trip r) b =
     (case trip r b of Inr b' \<Rightarrow> (Done, b') | Inl e \<Rightarrow> (Raised e, b))"
| "breaker_call (TripElsewhere r) b = (Done, trip_elsewhere r b)"
| "breaker_call (IsTripped g now now') b =
     (case is_tripped g now now' b of (t, b') \<Rightarrow> (Answer t, b'))"
| "breaker_call ConsumeReason b =
     (case consume_reason b of Inr (r, b') \<Rightarrow> (Reason r, b') | Inl e \<Rightarrow> (Raised e, b))"
| "breaker_call Feed b = (Done, b\<lparr>reason := feed (reason b)\<rparr>)"

fun breaker_calls :: "'r breaker_op list \<Rightarrow> 'r breaker \<Rightarrow> 'r breaker_outcome list \<times> 'r breaker" where
  "breaker_calls [] b = ([], b)"
| "breaker_calls (c # cs) b =
     (case breaker_call c b of (out, b1) \<Rightarrow>
        (case breaker_calls cs b1 of (outs, b2) \<Rightarrow> (out # outs, b2)))"

text \<open>The answers of the polls in a trace, in call order.\<close>

fun answers :: "'r breaker_outcome list \<Rightarrow> bool list" where
  "answers [] = []"
| "answers (Answer t # outs) = t # answers outs"
| "answers (_ # outs) = answers outs"

text \<open>
  The queue on its own.  Whatever threads and processes call \<open>trip\<close>, and however
  their steps interleave with each other, with the feeder threads and with a caller of
  \<open>consume_reason\<close>, the queue sees a sequence of its atomic operations: one \<open>put\<close> for
  each \<open>trip\<close>, one \<open>get\<close> for each \<open>consume_reason\<close>, and the deliveries of the feeder
  threads.  (Calls of \<open>consume_reason\<close> are taken one at a time: it is meant for the
  parent process alone, and a call that finds the queue's reader lock held by another
  call fails at once.)
\<close>

datatype 'r slot_op = SlotPut 'r | SlotDeliver | SlotGet

datatype 'r slot_outcome =
    PutDone
  | PutFull
  | Delivered
  | GetReturned 'r
  | GetEmpty

fun slot_step :: "'r slot_op \<Rightarrow> 'r slot \<Rightarrow> 'r slot_outcome \<times> 'r slot" where
  "slot_step (SlotPut r) s =
     (case put_nowait r s of Inr s' \<Rightarrow> (PutDone, s') | Inl e \<Rightarrow> (PutFull, s))"
| "slot_step SlotDeliver s = (Delivered, feed s)"
| "slot_step SlotGet s =
     (case get_nowait s of Inr (r, s') \<Rightarrow> (GetReturned r, s') | Inl e \<Rightarrow> (GetEmpty, s))"

fun slot_run :: "'r slot_op list \<Rightarrow> 'r slot \<Rightarrow> 'r slot_outcome list \<times> 'r slot" where
  "slot_run [] s = ([], s)"
| "slot_run (x # xs) s =
     (case slot_step x s of (out, s1) \<Rightarrow>
        (case slot_run xs s1 of (outs, s2) \<Rightarrow> (out # outs, s2)))"

text \<open>
  The reason offered by the first \<open>put\<close> of a sequence, and whether a delivery follows
  that \<open>put\<close>.
\<close>

fun first_put :: "'r slot_op list \<Rightarrow> 'r option" where
  "first_put [] = None"
| "first_put (SlotPut r # xs) = Some r"
| "first_put (_ # xs) = first_put xs"

fun delivered :: "'r slot_op list \<Rightarrow> bool" where
  "delivered [] = False"
| "delivered (SlotPut r # xs) = (SlotDeliver \<in> set xs)"
| "delivered (_ # xs) = delivered xs"

subsection \<open>is\_tripped step by step\<close>

text \<open>
  \<open>is_tripped\<close> takes no lock, and in a work process the main thread and the pool
  threads call it on the same copy.  Its steps, each one read or one store of an
  attribute: decide whether to refresh (line 44, reading \<open>_checked\<close> and the clock),
  read the event, store the value read in \<open>_cached\<close> (line 45), store the clock in
  \<open>_checked\<close> (line 46), read \<open>_cached\<close> and return it (line 48).  A thread inside the
  call is at one of these steps; the value it has read from the event is its own.
\<close>

datatype poll_pc =
    Deciding "real option"
  | Reading
  | Storing bool
  | Stamping
  | Answering

fun poll_step :: "real \<Rightarrow> poll_pc \<Rightarrow> 'r breaker \<Rightarrow> (poll_pc + bool) \<times> 'r breaker" where
  "poll_step t (Deciding g) b =
     (let use_granularity = (case g of None \<Rightarrow> granularity b | Some g' \<Rightarrow> g') in
      if use_granularity \<le> 0 \<or> t - checked b \<ge> use_granularity
      then (Inl Reading, b) else (Inl Answering, b))"
| "poll_step t Reading b = (Inl (Storing (event b)), b)"
| "poll_step t (Storing v) b = (Inl Stamping, b\<lparr>cached := v\<rparr>)"
| "poll_step t Stamping b = (Inl Answering, b\<lparr>checked := t\<rparr>)"
| "poll_step t Answering b = (Inr (cached b), b)"

text \<open>
  Several threads on one copy: a thread enters \<open>is_tripped\<close>, a thread inside the call
  takes its next step, or a whole call of the kinds above runs between steps.  The
  result lists the answers in the order in which the calls return.
\<close>

datatype 'r thread_action =
    Enter nat "real option"
  | Advance nat real
  | Whole "'r breaker_op"

fun thread_step ::
  "'r thread_action \<Rightarrow> 'r breaker \<times> (nat \<Rightarrow> poll_pc option) \<Rightarrow>
   bool option \<times> 'r breaker \<times> (nat \<Rightarrow> poll_pc option)" where
  "thread_step (Enter i g) (b, pcs) = (None, b, pcs(i := Some (Deciding g)))"
| "thread_step (Advance i t) (b, pcs) =
     (case pcs i of
        None \<Rightarrow> (None, b, pcs)
      | Some pc \<Rightarrow>
          (case poll_step t pc b of
             (Inl pc', b') \<Rightarrow> (None, b', pcs(i := Some pc'))
           | (Inr v, b') \<Rightarrow> (Some v, b', pcs(i := None))))"
| "thread_step (Whole c) (b, pcs) = (None, snd (breaker_call c b), pcs)"

fun threads_run ::
  "'r thread_action list \<Rightarrow> 'r breaker \<times> (nat \<Rightarrow> poll_pc option) \<Rightarrow> bool list" where
  "threads_run [] st = []"
| "threads_run (a # as) st =
     (case thread_step a st of
        (None, st') \<Rightarrow> threads_run as st'
      | (Some v, st') \<Rightarrow> v # threads_run as st')"

text \<open>
  The actions of a call that runs with no other action in between, made by thread \<open>i\<close>.
  A poll takes two steps when it answers from the cache and five when it refreshes; a
  step asked of a thread that has already returned does nothing.
\<close>

fun one_at_a_time :: "nat \<Rightarrow> 'r breaker_op \<Rightarrow> 'r thread_action list" where
  "one_at_a_time i (IsTripped g now now') =
     [Enter i g, Advance i now, Advance i now, Advance i now, Advance i now',
      Advance i now']"
| "one_at_a_time i c = [Whole c]"

section \<open>ThreadingSmoothRateLimiter (threading\_smooth\_rate\_limiter.py)\<close>

text \<open>
  The limiter's attributes.  The lock is held for the whole of \<open>wait\<close>, so calls are
  serial and each is a function of the clock reading \<open>entry_time\<close> and the attributes.
  Times are idealised as real numbers.
\<close>

record limiter =
  last_time :: real
  last_report :: real
  delay :: real
  report_interval_seconds :: real
  report_count :: int

text \<open>
  \<open>__init__(self, calls_per_second=5, report_interval_seconds=5)\<close>; the division
  \<open>1/calls_per_second\<close> raises on zero.
\<close>

definition limiter_init :: "real \<Rightarrow> real \<Rightarrow> exn + limiter" where
  "limiter_init calls_per_second interval =
     (if calls_per_second = 0 then Inl ZeroDivisionError
      else Inr \<lparr>last_time = 0, last_report = 0, delay = 1 / calls_per_second,
                report_interval_seconds = interval, report_count = 0\<rparr>)"

text \<open>
  \<open>wait\<close> returns the duration handed to \<open>time.sleep\<close> (\<open>0\<close> when \<open>sleep\<close> is not
  called: it is called only with a positive duration), the rate written to the log if a
  report was due, and the updated limiter.  The division inside the log line raises when
  no time has passed since the last report, before any attribute is changed.
\<close>

definition wait :: "real \<Rightarrow> limiter \<Rightarrow> exn + (real \<times> real option \<times> limiter)" where
  "wait entry_time l =
     (case
        (if last_report l = 0 then Inr (None, l\<lparr>last_report := entry_time\<rparr>)
         else if last_report l < entry_time - report_interval_seconds l then
           (if entry_time - last_report l = 0 then Inl ZeroDivisionError
            else Inr (Some (real_of_int (report_count l) / (entry_time - last_report l)),
                      l\<lparr>report_count := 0, last_report := entry_time\<rparr>))
         else Inr (None, l))
      of
        Inl e \<Rightarrow> Inl e
      | Inr (logged, l1) \<Rightarrow>
          (let elapsed = entry_time - last_time l1;
               remaining = delay l1 - elapsed;
               slept = (if remaining > 0 then remaining else 0);
               after_sleep = (if remaining > 0 then entry_time + remaining else entry_time)
           in Inr (slept, logged,
                   l1\<lparr>last_time := after_sleep, report_count := report_count l1 + 1\<rparr>)))"

text \<open>
  A sequence of calls as the clock shows it: each call is the pair of the reading at
  entry and the time at which the call returns.  \<open>plausible prev cs l\<close> says that the
  sequence can happen on limiter \<open>l\<close> when the previous return was at \<open>prev\<close>: the clock
  does not run backwards, no call raises, and \<open>time.sleep\<close> suspends for at least the
  duration asked (it may suspend for longer).
\<close>

fun plausible :: "real \<Rightarrow> (real \<times> real) list \<Rightarrow> limiter \<Rightarrow> bool" where
  "plausible prev [] l = True"
| "plausible prev ((entry_time, returned) # cs) l =
     (prev \<le> entry_time \<and>
      (case wait entry_time l of
         Inl e \<Rightarrow> False
       | Inr (slept, logged, l') \<Rightarrow> entry_time + slept \<le> returned \<and> plausible returned cs l'))"

text \<open>The sleep asked for by each call, and \<open>_last_time\<close> after each call.\<close>

fun sleeps :: "(real \<times> real) list \<Rightarrow> limiter \<Rightarrow> real list" where
  "sleeps [] l = []"
| "sleeps ((entry_time, returned) # cs) l =
     (case wait entry_time l of
        Inl e \<Rightarrow> []
      | Inr (slept, logged, l') \<Rightarrow> slept # sleeps cs l')"

fun releases :: "(real \<times> real) list \<Rightarrow> limiter \<Rightarrow> real list" where
  "releases [] l = []"
| "releases ((entry_time, returned) # cs) l =
     (case wait entry_time l of
        Inl e \<Rightarrow> []
      | Inr (slept, logged, l') \<Rightarrow> last_time l' # releases cs l')"

text \<open>Successive times at least \<open>d\<close> apart.\<close>

fun spaced :: "real \<Rightarrow> real list \<Rightarrow> bool" where
  "spaced d [] = True"
| "spaced d [x] = True"
| "spaced d (x # y # ys) = (x + d \<le> y \<and> spaced d (y # ys))"

section \<open>ThreadingBoundedExecutor (threading\_bounded\_executor.py)\<close>

text \<open>
  The executor object: the pool (\<open>max_workers\<close> threads, whether \<open>shutdown\<close> has been
  called on it, and the futures it holds that are not yet done, queued or running) and
  the \<open>BoundedSemaphore\<close> (its initial value and its current value).  Futures are
  numbered in the order the pool creates them.
\<close>

record executor =
  max_workers :: int
  pool_shutdown :: bool
  futures :: "nat list"
  next_future :: nat
  semaphore_initial :: int
  semaphore_value :: int

text \<open>
  \<open>__init__(self, bound, max_workers)\<close>: \<open>ThreadPoolExecutor\<close> refuses a worker
  count that is not positive, \<open>BoundedSemaphore\<close> a negative initial value.
\<close>

definition executor_init :: "int \<Rightarrow> int \<Rightarrow> exn + executor" where
  "executor_init bound workers =
     (if workers \<le> 0 then Inl ValueError
      else if bound + workers < 0 then Inl ValueError
      else Inr \<lparr>max_workers = workers, pool_shutdown = False, futures = [],
                next_future = 0, semaphore_initial = bound + workers,
                semaphore_value = bound + workers\<rparr>)"

text \<open>
  The semaphore.  \<open>acquire()\<close> blocks while the value is zero: \<open>None\<close> stands for a
  caller that is still blocked.  \<open>release()\<close> of a \<open>BoundedSemaphore\<close> raises
  \<open>ValueError\<close> rather than exceed the initial value.
\<close>

definition acquire :: "executor \<Rightarrow> executor option" where
  "acquire s =
     (if semaphore_value s \<le> 0 then None
      else Some (s\<lparr>semaphore_value := semaphore_value s - 1\<rparr>))"

definition release :: "executor \<Rightarrow> exn + executor" where
  "release s =
     (if semaphore_value s \<ge> semaphore_initial s then Inl ValueError
      else Inr (s\<lparr>semaphore_value := semaphore_value s + 1\<rparr>))"

text \<open>
  \<open>submit\<close>.  The pool's own \<open>submit\<close> raises \<open>RuntimeError\<close> after \<open>shutdown\<close>; it
  raises as well, before it has queued the task, when the pool is broken or the
  interpreter is shutting down, which the argument \<open>handoff_ok = False\<close> stands for.
  (A failure to start a worker thread, raised after the task has been queued, is not
  covered.)  On failure the bare \<open>except\<close> releases the permit and re-raises.  On
  success the new future gets the done-callback that releases.
\<close>

datatype submit_outcome =
    SubmitBlocked
  | SubmitRaised exn
  | SubmitReturned nat

definition submit :: "bool \<Rightarrow> executor \<Rightarrow> submit_outcome \<times> executor" where
  "submit handoff_ok s =
     (case acquire s of
        None \<Rightarrow> (SubmitBlocked, s)
      | Some s1 \<Rightarrow>
          if pool_shutdown s1 \<or> \<not> handoff_ok then
            (case release s1 of
               Inl e \<Rightarrow> (SubmitRaised e, s1)
             | Inr s2 \<Rightarrow> (SubmitRaised RuntimeError, s2))
          else
            (SubmitReturned (next_future s1),
             s1\<lparr>futures := futures s1 @ [next_future s1],
                next_future := Suc (next_future s1)\<rparr>))"

text \<open>
  A future of the pool becomes done, whether its task returned or raised: it leaves the
  pool and its callback \<open>lambda x: self.semaphore.release()\<close> runs, once.  The result
  is the exception the callback raised, if any.  A number that is not a future of the
  pool stands for nothing and changes nothing.
\<close>

definition future_done :: "nat \<Rightarrow> bool \<Rightarrow> executor \<Rightarrow> exn option \<times> executor" where
  "future_done f task_raised s =
     (if f \<in> set (futures s) then
        (case release (s\<lparr>futures := removeAll f (futures s)\<rparr>) of
           Inl e \<Rightarrow> (Some e, s\<lparr>futures := removeAll f (futures s)\<rparr>)
         | Inr s' \<Rightarrow> (None, s'))
      else (None, s))"

text \<open>
  \<open>shutdown(wait=True)\<close> passes the call to the pool, which from then on refuses
  submissions; the completion of the futures it waits for is the \<open>future_done\<close> above.
\<close>

definition shutdown :: "bool \<Rightarrow> executor \<Rightarrow> executor" where
  "shutdown wait_all s = s\<lparr>pool_shutdown := True\<rparr>"

text \<open>Histories of an executor: calls of \<open>submit\<close> and \<open>shutdown\<close>, and futures becoming done.\<close>

datatype executor_event =
    Submit bool
  | FutureDone nat bool
  | Shutdown bool

fun executor_step :: "executor_event \<Rightarrow> executor \<Rightarrow> exn option \<times> executor" where
  "executor_step (Submit handoff_ok) s =
     (case submit handoff_ok s of
        (SubmitRaised e, s') \<Rightarrow> (Some e, s')
      | (_, s') \<Rightarrow> (None, s'))"
| "executor_step (FutureDone f task_raised) s = future_done f task_raised s"
| "executor_step (Shutdown wait_all) s = (None, shutdown wait_all s)"

fun executor_run :: "executor_event list \<Rightarrow> executor \<Rightarrow> exn option list \<times> executor" where
  "executor_run [] s = ([], s)"
| "executor_run (ev # evs) s =
     (case executor_step ev s of (x, s1) \<Rightarrow>
        (case executor_run evs s1 of (xs, s2) \<Rightarrow> (x # xs, s2)))"

section \<open>MultiprocessingThreadingWorkQueue (multiprocessing\_threading\_work\_queue.py)\<close>

subsection \<open>run\<close>

text \<open>
  A Python number, an \<open>int\<close> of any size or a \<open>float\<close> (idealised as a real), and
  \<open>float(x)\<close>: an \<open>int\<close> that rounds beyond the largest double, that is one of
  magnitude \<open>2^1024 - 2^970\<close> or more, raises \<open>OverflowError\<close>.
\<close>

datatype number = IntNum int | FloatNum real

definition number_value :: "number \<Rightarrow> real" where
  "number_value x = (case x of IntNum n \<Rightarrow> real_of_int n | FloatNum v \<Rightarrow> v)"

definition float_limit :: int where
  "float_limit = 2 ^ 1024 - 2 ^ 970"

definition py_float :: "number \<Rightarrow> exn + real" where
  "py_float x =
     (case x of
        FloatNum v \<Rightarrow> Inr v
      | IntNum n \<Rightarrow> if \<bar>n\<bar> \<ge> float_limit then Inl OverflowError else Inr (real_of_int n))"

text \<open>
  The configuration attributes; \<open>configured\<close> says whether the attribute \<open>_configured\<close>
  exists (\<open>__init__\<close> and \<open>argparse\<close> set it).
\<close>

record config =
  configured :: bool
  work_processes :: int
  max_threads_per_work_process :: int
  queue_maxsize :: int
  rate :: number

text \<open>\<open>__init__\<close> with its defaults \<open>1, 1024, 1024, 10\<close> as arguments.\<close>

definition work_queue_init :: "int \<Rightarrow> int \<Rightarrow> int \<Rightarrow> number \<Rightarrow> config" where
  "work_queue_init p t q r =
     \<lparr>configured = True, work_processes = p, max_threads_per_work_process = t,
      queue_maxsize = q, rate = r\<rparr>"

text \<open>
  Line 106, \<open>float(self._rate) / float(self._work_processes)\<close>: the conversions left to
  right, then the division, which raises on a zero divisor.
\<close>

definition process_rate :: "config \<Rightarrow> exn + real" where
  "process_rate c =
     (case py_float (rate c) of
        Inl e \<Rightarrow> Inl e
      | Inr r \<Rightarrow>
          (case py_float (IntNum (work_processes c)) of
             Inl e \<Rightarrow> Inl e
           | Inr p \<Rightarrow> if p = 0 then Inl ZeroDivisionError else Inr (r / p)))"

text \<open>
  What \<open>multiprocessing.Queue(maxsize=n)\<close> raises, if anything, depends on the platform
  and is an argument of \<open>run\<close>.  Where a C \<open>int\<close> has 32 bits and semaphores count that
  far, a size beyond the largest \<open>int\<close> raises \<open>OverflowError\<close> and nothing else is
  refused.
\<close>

definition queue_refuses_beyond_int :: "int \<Rightarrow> exn option" where
  "queue_refuses_beyond_int n = (if n > 2147483647 then Some OverflowError else None)"

datatype proc = AcquisitionProcess | WorkProcess nat

datatype run_event = Started proc | Joined proc

datatype 'r run_result =
    Returned
  | BreakerTrippedException 'r
  | RunRaised exn

text \<open>
  \<open>run\<close>.  What the child processes do is outside this function; what reaches the
  parent is the reasons with which they called \<open>trip\<close> before they were joined, in
  order (\<open>trips\<close>).  A child process joins its queue's feeder thread before it exits,
  so what it has put is in the pipe when \<open>join\<close> returns.  \<open>t0\<close> is the clock reading at
  which the breaker is constructed, \<open>t1\<close> and \<open>t1'\<close> are the readings of the poll after
  the joins.  The result is the trace of process starts and joins and how the call
  ends.  \<open>range\<close> of a negative count is empty.
\<close>

definition run ::
  "(int \<Rightarrow> exn option) \<Rightarrow> config \<Rightarrow> real \<Rightarrow> 'r list \<Rightarrow> real \<Rightarrow> real \<Rightarrow>
   run_event list \<times> 'r run_result" where
  "run queue_refuses c t0 trips t1 t1' =
     (if \<not> configured c then ([], RunRaised UnconfiguredException)
      else
        (case process_rate c of
           Inl e \<Rightarrow> ([], RunRaised e)
         | Inr pr \<Rightarrow>
             (case queue_refuses (queue_maxsize c) of
                Some e \<Rightarrow> ([], RunRaised e)
              | None \<Rightarrow>
                  (let procs = AcquisitionProcess #
                         map WorkProcess [0 ..< nat (work_processes c)];
                       b = fold trip_elsewhere trips (breaker_init (1 / 10) t0);
                       joined = b\<lparr>reason := feed (reason b)\<rparr>;
                       polled = is_tripped None t1 t1' joined
                   in (map Started procs @ map Joined procs,
                       if fst polled then
                         (case consume_reason (snd polled) of
                            Inl e \<Rightarrow> RunRaised e
                          | Inr (r, b') \<Rightarrow> BreakerTrippedException r)
                       else Returned)))))"

subsection \<open>\_distribute\_work\<close>






subsection \<open>The worker process bodies\<close>

text \<open>
  The user hooks are abstract: what matters of a call is whether it returns (\<open>None\<close>)
  or raises (\<open>Some e\<close>; \<open>KeyboardInterrupt\<close> is the interrupt).  Each body returns the
  trace of what it did, the exception that leaves it (the child process then exits
  abnormally), and the breaker copy.
\<close>

datatype hook =
    OnAcquisitionProcessSetup
  | AcquireWork
  | OnAcquisitionProcessComplete
  | OnWorkProcessSetup
  | OnWorkProcessComplete

datatype worker_event =
    Hook hook
  | DoneSet
  | TripCalled string
  | LogError
  | LogException
  | LogDebug
  | QueueGet
  | ExecutorSubmit
  | ExecutorShutdown

text \<open>The \<open>try\<close> block of \<open>_acquisition_process_entry\<close>: setup, acquire, \<open>_done.set()\<close>.\<close>

definition acquisition_body :: "exn option \<Rightarrow> exn option \<Rightarrow> worker_event list \<times> exn option" where
  "acquisition_body on_setup acquired =
     (case on_setup of
        Some e \<Rightarrow> ([Hook OnAcquisitionProcessSetup], Some e)
      | None \<Rightarrow>
          (case acquired of
             Some e \<Rightarrow> ([Hook OnAcquisitionProcessSetup, Hook AcquireWork], Some e)
           | None \<Rightarrow> ([Hook OnAcquisitionProcessSetup, Hook AcquireWork, DoneSet], None)))"

text \<open>
  The handlers shared in shape by both bodies: \<open>except BaseException\<close> logs, trips the
  breaker with \<open>reason\<close> and re-raises.
\<close>

definition trip_and_reraise ::
  "string \<Rightarrow> exn \<Rightarrow> string breaker \<Rightarrow> worker_event list \<times> exn option \<times> string breaker" where
  "trip_and_reraise why e b =
     (case trip why b of
        Inr b' \<Rightarrow> ([LogException, TripCalled why], Some e, b')
      | Inl e' \<Rightarrow> ([LogException, TripCalled why], Some e', b))"

text \<open>A guarded cleanup call: \<open>try: call() except BaseException: logging.exception(...)\<close>.\<close>

definition guarded :: "worker_event \<Rightarrow> exn option \<Rightarrow> worker_event list" where
  "guarded call outcome =
     (case outcome of None \<Rightarrow> [call] | Some e \<Rightarrow> [call, LogException])"

definition acquisition_process_entry ::
  "exn option \<Rightarrow> exn option \<Rightarrow> exn option \<Rightarrow> string breaker \<Rightarrow>
   worker_event list \<times> exn option \<times> string breaker" where
  "acquisition_process_entry on_setup acquired completed b =
     (case acquisition_body on_setup acquired of (tr, raised) \<Rightarrow>
        (case
           (case raised of
              None \<Rightarrow> ([], None, b)
            | Some e \<Rightarrow>
                if e = BreakerTrippingException then ([LogError], None, b)
                else trip_and_reraise
                  ''_acquisition_process_entry(): Tripping breaker due to exception and re-raising''
                  e b)
         of (handled, leaving, b') \<Rightarrow>
           (tr @ handled @ guarded (Hook OnAcquisitionProcessComplete) completed,
            leaving, b')))"

text \<open>
  One pass of the loop of \<open>_work_process_entry\<close>: a trip made elsewhere since the
  previous pass and the clock readings of the poll; the outcome of
  \<open>queue.get(timeout=1)\<close> (\<open>None\<close>: an item; \<open>Some QueueEmpty\<close>: the timeout); whether
  the done flag is set when consulted; the outcome of \<open>executor.submit\<close>.
\<close>

record 'r work_pass =
  wp_tripped_elsewhere :: "'r option"
  wp_now :: real
  wp_now' :: real
  wp_get :: "exn option"
  wp_done :: bool
  wp_submit :: "exn option"

text \<open>
  The \<open>try\<close> body inside the loop, up to the first exception: \<open>get\<close>, then \<open>submit\<close>.
\<close>

definition get_and_submit :: "'r work_pass \<Rightarrow> worker_event list \<times> exn option" where
  "get_and_submit p =
     (case wp_get p of
        Some e \<Rightarrow> ([QueueGet], Some e)
      | None \<Rightarrow> ([QueueGet, ExecutorSubmit], wp_submit p))"

text \<open>
  The loop, over the passes it is given.  \<open>Some\<close>: the loop was left, by \<open>break\<close> (no
  exception) or by an exception other than \<open>queue.Empty\<close>.  \<open>None\<close>: the passes given
  ran out with the loop still going round.
\<close>

fun work_loop ::
  "string work_pass list \<Rightarrow> string breaker \<Rightarrow>
   (worker_event list \<times> exn option \<times> string breaker) option" where
  "work_loop [] b = None"
| "work_loop (p # ps) b =
     (let polled = is_tripped None (wp_now p) (wp_now' p)
                     (case wp_tripped_elsewhere p of
                        None \<Rightarrow> b | Some r \<Rightarrow> trip_elsewhere r b);
          b1 = snd polled;
          again = (\<lambda>tr. map_option (\<lambda>(tr', x, b'). (tr @ tr', x, b')) (work_loop ps b1))
      in if fst polled then Some ([LogError], None, b1)
         else
           (case get_and_submit p of
              (tr, None) \<Rightarrow> again tr
            | (tr, Some e) \<Rightarrow>
                if e = QueueEmpty then
                  (if wp_done p then Some (tr @ [LogDebug], None, b1) else again tr)
                else Some (tr, Some e, b1)))"

text \<open>
  The \<open>try\<close> block of \<open>_work_process_entry\<close>: setup, the limiter (at the rate that
  \<open>run\<close> computed in the parent, the configured rate divided by the process count),
  the executor (with \<open>max_workers\<close> and \<open>bound\<close> both the thread count), the loop.  The third component says
  whether the variable \<open>executor\<close> has been assigned by the time the block is left.
\<close>

definition work_body ::
  "config \<Rightarrow> exn option \<Rightarrow> string work_pass list \<Rightarrow> string breaker \<Rightarrow>
   (worker_event list \<times> exn option \<times> bool \<times> string breaker) option" where
  "work_body c on_setup passes b =
     (case on_setup of
        Some e \<Rightarrow> Some ([Hook OnWorkProcessSetup], Some e, False, b)
      | None \<Rightarrow>
          (case limiter_init (number_value (rate c) / real_of_int (work_processes c)) 5 of
             Inl e \<Rightarrow> Some ([Hook OnWorkProcessSetup], Some e, False, b)
           | Inr l \<Rightarrow>
               (case executor_init (max_threads_per_work_process c)
                       (max_threads_per_work_process c) of
                  Inl e \<Rightarrow> Some ([Hook OnWorkProcessSetup], Some e, False, b)
                | Inr ex \<Rightarrow>
                    map_option (\<lambda>(tr, x, b'). (Hook OnWorkProcessSetup # tr, x, True, b'))
                      (work_loop passes b))))"

text \<open>
  \<open>_work_process_entry\<close>: the block, the handler, and the \<open>finally\<close> clause, where the
  shutdown is under \<open>if executor:\<close> and both calls are guarded.  \<open>None\<close>: the process is
  still in its loop.
\<close>

definition work_process_entry ::
  "config \<Rightarrow> exn option \<Rightarrow> string work_pass list \<Rightarrow> exn option \<Rightarrow> exn option \<Rightarrow>
   string breaker \<Rightarrow> (worker_event list \<times> exn option \<times> string breaker) option" where
  "work_process_entry c on_setup passes shutdown_outcome completed b =
     (case work_body c on_setup passes b of
        None \<Rightarrow> None
      | Some (tr, raised, executor_assigned, b1) \<Rightarrow>
          (case
             (case raised of
                None \<Rightarrow> ([], None, b1)
              | Some e \<Rightarrow> trip_and_reraise
                  ''_work_process_entry(): Caught exception.  Tripping breaker and re-raising.''
                  e b1)
           of (handled, leaving, b2) \<Rightarrow>
             Some (tr @ handled @
                   (if executor_assigned
                    then LogDebug # guarded ExecutorShutdown shutdown_outcome else []) @
                   LogDebug # guarded (Hook OnWorkProcessComplete) completed,
                   leaving, b2)))"

section \<open>ThreadingAccumulator (threading\_accumulator.py)\<close>

text \<open>
  The accumulator object: \<open>_size\<close>, \<open>_serial\<close> and the buffer \<open>_list\<close>.  The two
  locks carry no data; taking and releasing them is recorded in the event trace that
  every operation returns, together with each call of the abstract method
  \<open>_on_process\<close> and the batch it is handed.
\<close>

record 'a accumulator =
  acc_size :: int
  acc_serial :: bool
  acc_list :: "'a list"

datatype 'a acc_event =
    AcquireListLock
  | ReleaseListLock
  | AcquireProcessLock
  | ReleaseProcessLock
  | OnProcess "'a list"

text \<open>\<open>__init__(self, size=512, serial=True)\<close>.\<close>

definition accumulator_init :: "int \<Rightarrow> bool \<Rightarrow> 'a accumulator" where
  "accumulator_init sz ser = \<lparr>acc_size = sz, acc_serial = ser, acc_list = []\<rparr>"

text \<open>
  The tail shared by \<open>add\<close> and \<open>flush\<close>: \<open>if process_list:\<close> is Python truthiness, so
  both \<open>None\<close> and the empty list skip the call; with \<open>_serial\<close> the call is wrapped in
  the process lock.
\<close>

definition process :: "'a accumulator \<Rightarrow> 'a list option \<Rightarrow> 'a acc_event list" where
  "process a process_list =
     (case process_list of
        None \<Rightarrow> []
      | Some l \<Rightarrow>
          if l = [] then []
          else if acc_serial a then [AcquireProcessLock, OnProcess l, ReleaseProcessLock]
          else [OnProcess l])"

definition add :: "'a \<Rightarrow> 'a accumulator \<Rightarrow> 'a acc_event list \<times> 'a accumulator" where
  "add thing a =
     (let l = acc_list a @ [thing] in
      if int (length l) \<ge> acc_size a
      then ([AcquireListLock, ReleaseListLock] @ process a (Some l), a\<lparr>acc_list := []\<rparr>)
      else ([AcquireListLock, ReleaseListLock] @ process a None, a\<lparr>acc_list := l\<rparr>))"

definition flush :: "'a accumulator \<Rightarrow> 'a acc_event list \<times> 'a accumulator" where
  "flush a =
     (if length (acc_list a) > 0
      then ([AcquireListLock, ReleaseListLock] @ process a (Some (acc_list a)),
            a\<lparr>acc_list := []\<rparr>)
      else ([AcquireListLock, ReleaseListLock] @ process a None, a))"

text \<open>A sequence of \<open>add\<close> calls, one per element, and the same followed by one \<open>flush\<close>.\<close>

fun add_all :: "'a list \<Rightarrow> 'a accumulator \<Rightarrow> 'a acc_event list \<times> 'a accumulator" where
  "add_all [] a = ([], a)"
| "add_all (x # xs) a =
     (case add x a of (e1, a1) \<Rightarrow> (case add_all xs a1 of (e2, a2) \<Rightarrow> (e1 @ e2, a2)))"

definition add_all_then_flush ::
  "'a list \<Rightarrow> 'a accumulator \<Rightarrow> 'a acc_event list \<times> 'a accumulator" where
  "add_all_then_flush xs a =
     (case add_all xs a of (e1, a1) \<Rightarrow> (case flush a1 of (e2, a2) \<Rightarrow> (e1 @ e2, a2)))"

text \<open>The batches handed to \<open>_on_process\<close> in a trace, in call order.\<close>

fun batches :: "'a acc_event list \<Rightarrow> 'a list list" where
  "batches [] = []"
| "batches (OnProcess l # es) = l # batches es"
| "batches (_ # es) = batches es"

fun process_lock_taken :: "'a acc_event list \<Rightarrow> bool" where
  "process_lock_taken [] = False"
| "process_lock_taken (AcquireProcessLock # es) = True"
| "process_lock_taken (_ # es) = process_lock_taken es"

section \<open>Properties\<close>

subsection \<open>MultiprocessingBreaker: trip\<close>

lemma trip_empty_slot:
  "reason b = Free \<Longrightarrow>
     trip r b = Inr (b\<lparr>reason := Buffered r, event := True, cached := True\<rparr>)"
  by (simp add: trip_def put_nowait_def)

lemma trip_filled_slot: "reason b \<noteq> Free \<Longrightarrow> trip r b = Inr b"
  by (cases "reason b") (simp_all add: trip_def put_nowait_def)

lemma trip_returns: "\<exists>b'. trip r b = Inr b'"
  by (cases "reason b = Free") (simp_all add: trip_empty_slot trip_filled_slot)

lemma trip_elsewhere_empty_slot:
  "reason b = Free \<Longrightarrow> trip_elsewhere r b = b\<lparr>reason := Buffered r, event := True\<rparr>"
  by (simp add: trip_elsewhere_def trip_empty_slot)

lemma trip_elsewhere_filled_slot: "reason b \<noteq> Free \<Longrightarrow> trip_elsewhere r b = b"
  by (simp add: trip_elsewhere_def trip_filled_slot)

text \<open>
  C3 (as amended).  \<open>trip\<close> never raises.  On a free queue it stores the reason and sets
  the shared event and the caller's cached flag.  On a filled slot it changes nothing:
  the reason is dropped, and neither the event nor the cached flag is touched.  So after
  the call the slot is filled, and the event is set exactly if the slot was empty or the
  event was set before.
\<close>

theorem trip_publishes_or_does_nothing:
  "(\<exists>b'. trip r b = Inr b') \<and>
   (reason b = Free \<longrightarrow>
      trip r b = Inr (b\<lparr>reason := Buffered r, event := True, cached := True\<rparr>)) \<and>
   (reason b \<noteq> Free \<longrightarrow> trip r b = Inr b) \<and>
   (\<forall>b'. trip r b = Inr b' \<longrightarrow>
      reason b' \<noteq> Free \<and> (event b' \<longleftrightarrow> reason b = Free \<or> event b))"
  by (cases "reason b = Free") (simp_all add: trip_empty_slot trip_filled_slot)

theorem trip_publishes_or_does_nothing_witness:
  "trip ''first'' (breaker_init (1 / 10) 0) =
     Inr \<lparr>cached = True, checked = 0, granularity = 1 / 10, event = True,
          reason = Buffered ''first''\<rparr> \<and>
   trip ''second'' \<lparr>cached = True, checked = 0, granularity = 1 / 10, event = True,
          reason = Buffered ''first''\<rparr> =
     Inr \<lparr>cached = True, checked = 0, granularity = 1 / 10, event = True,
          reason = Buffered ''first''\<rparr>"
  using trip_publishes_or_does_nothing [of "''first''" "breaker_init (1 / 10) 0"]
    trip_publishes_or_does_nothing [of "''second''" "\<lparr>cached = True, checked = 0,
      granularity = 1 / 10, event = True, reason = Buffered ''first''\<rparr>"]
  by (simp add: breaker_init_def)

text \<open>
  The claim as stated, that the flag is set whether or not the slot took the reason,
  fails in two ways.  First, on the copy of a process that finds the slot filled by a
  publisher that has run \<open>put\<close> (line 30) and not yet \<open>set\<close> (line 31): the call
  returns with the event still unset.  Second, on the copy of a process other than the
  first publisher, after that publisher's \<open>trip\<close> has completed: the call leaves the
  caller's cached flag unset, and the caller's poll a twentieth of a second after its
  last refresh still answers \<open>False\<close>.
\<close>

theorem trip_flag_regardless_counterexample:
  "trip ''second'' \<lparr>cached = False, checked = 0, granularity = 1 / 10, event = False,
       reason = Buffered ''first''\<rparr> =
     Inr \<lparr>cached = False, checked = 0, granularity = 1 / 10, event = False,
       reason = Buffered ''first''\<rparr> \<and>
   trip ''second'' (trip_elsewhere ''first'' (breaker_init (1 / 10) 0)) =
     Inr \<lparr>cached = False, checked = 0, granularity = 1 / 10, event = True,
       reason = Buffered ''first''\<rparr> \<and>
   is_tripped None (1 / 20) (1 / 20)
       \<lparr>cached = False, checked = 0, granularity = 1 / 10, event = True,
         reason = Buffered ''first''\<rparr> =
     (False, \<lparr>cached = False, checked = 0, granularity = 1 / 10, event = True,
         reason = Buffered ''first''\<rparr>)"
  by (simp add: trip_def trip_elsewhere_def put_nowait_def breaker_init_def is_tripped_def)

subsection \<open>MultiprocessingBreaker: consume\_reason\<close>

lemma consume_reason_piped:
  "reason b = Piped r \<Longrightarrow> consume_reason b = Inr (r, b\<lparr>reason := Free\<rparr>)"
  by (simp add: consume_reason_def get_nowait_def)

lemma consume_reason_not_piped:
  "\<forall>r. reason b \<noteq> Piped r \<Longrightarrow> consume_reason b = Inl QueueEmpty"
  by (cases "reason b") (simp_all add: consume_reason_def get_nowait_def)

lemma breaker_calls_append:
  "breaker_calls (cs @ ds) b =
     (case breaker_calls cs b of (outs, b1) \<Rightarrow>
        (case breaker_calls ds b1 of (outs', b2) \<Rightarrow> (outs @ outs', b2)))"
  by (induction cs arbitrary: b) (simp_all split: prod.split)

lemma trip_acts_as_put:
  "trip r b = Inr b' \<Longrightarrow> reason b' = snd (slot_step (SlotPut r) (reason b))"
  "reason (trip_elsewhere r b) = snd (slot_step (SlotPut r) (reason b))"
  by (cases "reason b"; simp add: trip_def trip_elsewhere_def put_nowait_def; fastforce)+

lemma consume_acts_as_get:
  "fst (slot_step SlotGet (reason b)) =
     (case consume_reason b of Inr (r, b') \<Rightarrow> GetReturned r | Inl e \<Rightarrow> GetEmpty)"
  "snd (slot_step SlotGet (reason b)) =
     (case consume_reason b of Inr (r, b') \<Rightarrow> reason b' | Inl e \<Rightarrow> reason b)"
  by (cases "reason b"; simp add: consume_reason_def get_nowait_def)+

lemma slot_run_snd:
  "snd (slot_run (x # xs) s) = snd (slot_run xs (snd (slot_step x s)))"
  by (simp split: prod.split)

lemma puts_on_piped:
  "SlotGet \<notin> set xs \<Longrightarrow> snd (slot_run xs (Piped r)) = Piped r"
proof (induction xs)
  case Nil
  show ?case by simp
next
  case (Cons x xs)
  then have "snd (slot_step x (Piped r)) = Piped r"
    by (cases x) (simp_all add: put_nowait_def feed_def)
  then show ?case
    using Cons by (simp add: slot_run_snd del: slot_run.simps)
qed

lemma puts_on_buffered:
  "SlotGet \<notin> set xs \<Longrightarrow>
     snd (slot_run xs (Buffered r)) = (if SlotDeliver \<in> set xs then Piped r else Buffered r)"
proof (induction xs)
  case Nil
  show ?case by simp
next
  case (Cons x xs)
  show ?case
  proof (cases x)
    case (SlotPut r')
    have "snd (slot_step x (Buffered r)) = Buffered r"
      using SlotPut by (simp add: put_nowait_def)
    then show ?thesis
      using Cons SlotPut by (simp add: slot_run_snd del: slot_run.simps)
  next
    case SlotDeliver
    have "snd (slot_step x (Buffered r)) = Piped r"
      using SlotDeliver by (simp add: feed_def)
    then show ?thesis
      using Cons.prems SlotDeliver puts_on_piped [of xs r]
      by (simp add: slot_run_snd del: slot_run.simps)
  next
    case SlotGet
    then show ?thesis using Cons.prems by simp
  qed
qed

lemma puts_on_free:
  "SlotGet \<notin> set xs \<Longrightarrow>
     snd (slot_run xs Free) =
       (case first_put xs of
          None \<Rightarrow> Free
        | Some r \<Rightarrow> if delivered xs then Piped r else Buffered r)"
proof (induction xs)
  case Nil
  show ?case by simp
next
  case (Cons x xs)
  show ?case
  proof (cases x)
    case (SlotPut r)
    have "snd (slot_step x Free) = Buffered r"
      using SlotPut by (simp add: put_nowait_def)
    then show ?thesis
      using Cons.prems SlotPut puts_on_buffered [of xs r]
      by (simp add: slot_run_snd del: slot_run.simps)
  next
    case SlotDeliver
    have "snd (slot_step x Free) = Free"
      using SlotDeliver by (simp add: feed_def)
    moreover have "first_put (x # xs) = first_put xs" "delivered (x # xs) = delivered xs"
      using SlotDeliver by simp_all
    ultimately show ?thesis
      using Cons
      by (simp add: slot_run_snd del: slot_run.simps first_put.simps delivered.simps
          split: option.split)
  next
    case SlotGet
    then show ?thesis using Cons.prems by simp
  qed
qed

lemma two_gets:
  "fst (slot_run [SlotGet, SlotGet] s) =
     (case s of Piped r \<Rightarrow> [GetReturned r, GetEmpty] | _ \<Rightarrow> [GetEmpty, GetEmpty])"
  by (cases s) (simp_all add: get_nowait_def)

text \<open>
  C4 (as amended).  \<open>consume_reason\<close> returns a reason only when the queue's feeder
  thread has delivered one to the pipe, and then empties the queue; it fails, always
  with \<open>queue.Empty\<close>, exactly when the pipe holds no reason: none was published, or one
  was published and is not delivered yet, or it has been consumed.  On the queue a
  \<open>trip\<close>, here or elsewhere, is one \<open>put\<close> and a \<open>consume_reason\<close> is one \<open>get\<close>.  After
  any sequence of puts and deliveries on a free queue, with no \<open>get\<close> among them, the
  queue holds the reason of the first \<open>put\<close> (later ones found it full), delivered if a
  delivery followed that \<open>put\<close>; then the first \<open>get\<close> returns that reason if it has
  been delivered and fails if not, and after a \<open>get\<close> that returned it the next one
  fails.  A \<open>put\<close> after a successful \<open>get\<close> publishes again, and once delivered that
  later reason is what the next \<open>get\<close> returns.
\<close>

theorem consume_reason_first_publication:
  "(consume_reason b = Inl QueueEmpty \<longleftrightarrow> (\<forall>r. reason b \<noteq> Piped r)) \<and>
   (\<forall>e. consume_reason b = Inl e \<longrightarrow> e = QueueEmpty) \<and>
   (\<forall>r. reason b = Piped r \<longrightarrow> consume_reason b = Inr (r, b\<lparr>reason := Free\<rparr>)) \<and>
   (\<forall>b'. trip r b = Inr b' \<longrightarrow> reason b' = snd (slot_step (SlotPut r) (reason b))) \<and>
   reason (trip_elsewhere r b) = snd (slot_step (SlotPut r) (reason b)) \<and>
   fst (slot_step SlotGet (reason b)) =
     (case consume_reason b of Inr (r, b') \<Rightarrow> GetReturned r | Inl e \<Rightarrow> GetEmpty) \<and>
   snd (slot_step SlotGet (reason b)) =
     (case consume_reason b of Inr (r, b') \<Rightarrow> reason b' | Inl e \<Rightarrow> reason b) \<and>
   (SlotGet \<notin> set xs \<longrightarrow>
      snd (slot_run xs Free) =
        (case first_put xs of
           None \<Rightarrow> Free
         | Some r \<Rightarrow> if delivered xs then Piped r else Buffered r) \<and>
      fst (slot_run [SlotGet, SlotGet] (snd (slot_run xs Free))) =
        (case first_put xs of
           None \<Rightarrow> [GetEmpty, GetEmpty]
         | Some r \<Rightarrow>
             if delivered xs then [GetReturned r, GetEmpty] else [GetEmpty, GetEmpty])) \<and>
   fst (slot_run [SlotGet, SlotPut r', SlotDeliver, SlotGet] (Piped r0)) =
     [GetReturned r0, PutDone, Delivered, GetReturned r']"
proof (intro conjI)
  show "consume_reason b = Inl QueueEmpty \<longleftrightarrow> (\<forall>r. reason b \<noteq> Piped r)"
    by (cases "reason b") (simp_all add: consume_reason_def get_nowait_def)
next
  show "\<forall>e. consume_reason b = Inl e \<longrightarrow> e = QueueEmpty"
    by (cases "reason b") (simp_all add: consume_reason_def get_nowait_def)
next
  show "\<forall>r. reason b = Piped r \<longrightarrow> consume_reason b = Inr (r, b\<lparr>reason := Free\<rparr>)"
    by (simp add: consume_reason_piped)
next
  show "\<forall>b'. trip r b = Inr b' \<longrightarrow> reason b' = snd (slot_step (SlotPut r) (reason b))"
    using trip_acts_as_put(1) [of r b] by blast
next
  show "reason (trip_elsewhere r b) = snd (slot_step (SlotPut r) (reason b))"
    by (rule trip_acts_as_put(2))
next
  show "fst (slot_step SlotGet (reason b)) =
     (case consume_reason b of Inr (r, b') \<Rightarrow> GetReturned r | Inl e \<Rightarrow> GetEmpty)"
    by (rule consume_acts_as_get(1))
next
  show "snd (slot_step SlotGet (reason b)) =
     (case consume_reason b of Inr (r, b') \<Rightarrow> reason b' | Inl e \<Rightarrow> reason b)"
    by (rule consume_acts_as_get(2))
next
  show "SlotGet \<notin> set xs \<longrightarrow>
      snd (slot_run xs Free) =
        (case first_put xs of
           None \<Rightarrow> Free
         | Some r \<Rightarrow> if delivered xs then Piped r else Buffered r) \<and>
      fst (slot_run [SlotGet, SlotGet] (snd (slot_run xs Free))) =
        (case first_put xs of
           None \<Rightarrow> [GetEmpty, GetEmpty]
         | Some r \<Rightarrow>
             if delivered xs then [GetReturned r, GetEmpty] else [GetEmpty, GetEmpty])"
  proof (intro impI)
    assume no_get: "SlotGet \<notin> set xs"
    have after: "snd (slot_run xs Free) =
        (case first_put xs of
           None \<Rightarrow> Free
         | Some r \<Rightarrow> if delivered xs then Piped r else Buffered r)"
      using puts_on_free [OF no_get] .
    have "fst (slot_run [SlotGet, SlotGet] (snd (slot_run xs Free))) =
        (case first_put xs of
           None \<Rightarrow> [GetEmpty, GetEmpty]
         | Some r \<Rightarrow>
             if delivered xs then [GetReturned r, GetEmpty] else [GetEmpty, GetEmpty])"
      unfolding two_gets after by (cases "first_put xs") simp_all
    with after show "snd (slot_run xs Free) =
        (case first_put xs of
           None \<Rightarrow> Free
         | Some r \<Rightarrow> if delivered xs then Piped r else Buffered r) \<and>
      fst (slot_run [SlotGet, SlotGet] (snd (slot_run xs Free))) =
        (case first_put xs of
           None \<Rightarrow> [GetEmpty, GetEmpty]
         | Some r \<Rightarrow>
             if delivered xs then [GetReturned r, GetEmpty] else [GetEmpty, GetEmpty])"
      by (intro conjI)
  qed
next
  show "fst (slot_run [SlotGet, SlotPut r', SlotDeliver, SlotGet] (Piped r0)) =
     [GetReturned r0, PutDone, Delivered, GetReturned r']"
    by (simp add: get_nowait_def put_nowait_def feed_def)
qed

theorem consume_reason_first_publication_witness:
  "SlotGet \<notin> set [SlotPut ''first'', SlotPut ''second'', SlotDeliver, SlotPut ''third''] \<and>
   snd (slot_run [SlotPut ''first'', SlotPut ''second'', SlotDeliver, SlotPut ''third''] Free) =
     Piped ''first'' \<and>
   fst (slot_run [SlotGet, SlotGet]
     (snd (slot_run [SlotPut ''first'', SlotPut ''second'', SlotDeliver,
        SlotPut ''third''] Free))) = [GetReturned ''first'', GetEmpty] \<and>
   consume_reason \<lparr>cached = False, checked = 0, granularity = 1 / 10, event = True,
       reason = Piped ''first''\<rparr> =
     Inr (''first'', \<lparr>cached = False, checked = 0, granularity = 1 / 10, event = True,
       reason = Free\<rparr>)"
proof -
  let ?xs = "[SlotPut ''first'', SlotPut ''second'', SlotDeliver, SlotPut ''third'']"
  let ?b = "\<lparr>cached = False, checked = 0, granularity = 1 / 10, event = True,
       reason = Piped ''first''\<rparr>"
  note all = consume_reason_first_publication [where b = ?b and xs = ?xs]
  have no_get: "SlotGet \<notin> set ?xs" by simp
  note seq = all [THEN conjunct2, THEN conjunct2, THEN conjunct2, THEN conjunct2,
      THEN conjunct2, THEN conjunct2, THEN conjunct2, THEN conjunct1, THEN mp, OF no_get]
  have s1: "snd (slot_run ?xs Free) = Piped ''first''"
    using seq [THEN conjunct1] by simp
  have s2: "fst (slot_run [SlotGet, SlotGet] (snd (slot_run ?xs Free))) =
      [GetReturned ''first'', GetEmpty]"
    using seq [THEN conjunct2] by simp
  have c: "consume_reason ?b = Inr (''first'', ?b\<lparr>reason := Free\<rparr>)"
    using all [THEN conjunct2, THEN conjunct2, THEN conjunct1] by simp
  show ?thesis
    using no_get s1 s2 c by (intro conjI) simp_all
qed

text \<open>
  The claim as stated fails in two ways.  A \<open>consume_reason\<close> called right after a
  \<open>trip\<close>, before the feeder thread has delivered, fails although a reason has been
  published.  And when trips continue after a \<open>consume_reason\<close>, the reason of the
  later trip is returned by the second \<open>consume_reason\<close>, which does not fail.
\<close>

theorem consume_reason_later_trip_counterexample:
  "fst (breaker_calls [Trip ''first'', ConsumeReason] (breaker_init (1 / 10) 0)) =
     [Done, Raised QueueEmpty] \<and>
   fst (breaker_calls
          [Trip ''first'', Feed, ConsumeReason, Trip ''second'', Feed, ConsumeReason]
          (breaker_init (1 / 10) 0)) =
     [Done, Done, Reason ''first'', Done, Done, Reason ''second'']"
  by (simp add: breaker_init_def trip_def put_nowait_def feed_def consume_reason_def
      get_nowait_def)

subsection \<open>MultiprocessingBreaker: is\_tripped\<close>

lemma is_tripped_refresh:
  "(case g of None \<Rightarrow> granularity b | Some x \<Rightarrow> x) \<le> 0 \<or>
   now - checked b \<ge> (case g of None \<Rightarrow> granularity b | Some x \<Rightarrow> x) \<Longrightarrow>
     is_tripped g now now' b = (event b, b\<lparr>cached := event b, checked := now'\<rparr>)"
  by (simp add: is_tripped_def Let_def)

lemma is_tripped_cached:
  "0 < (case g of None \<Rightarrow> granularity b | Some x \<Rightarrow> x) \<Longrightarrow>
   now - checked b < (case g of None \<Rightarrow> granularity b | Some x \<Rightarrow> x) \<Longrightarrow>
     is_tripped g now now' b = (cached b, b)"
  by (simp add: is_tripped_def Let_def)

text \<open>
  Two facts carry monotonicity.  No call clears the event, and a copy whose cached flag
  is set only while the event is set keeps that property; once a poll has answered
  \<open>True\<close> both the cached flag and the event are set, and they stay set.
\<close>

lemma breaker_call_keeps_consistent:
  assumes inv: "cached b \<longrightarrow> event b"
  shows "cached (snd (breaker_call c b)) \<longrightarrow> event (snd (breaker_call c b))"
proof (cases c)
  case (Trip r)
  with inv show ?thesis
    by (cases "reason b = Free") (simp_all add: trip_empty_slot trip_filled_slot)
next
  case (TripElsewhere r)
  with inv show ?thesis
    by (cases "reason b = Free") (simp_all add: trip_elsewhere_empty_slot trip_elsewhere_filled_slot)
next
  case (IsTripped g now now')
  with inv show ?thesis
    by (simp add: is_tripped_def Let_def)
next
  case ConsumeReason
  with inv show ?thesis
    by (cases "reason b") (simp_all add: consume_reason_def get_nowait_def)
next
  case Feed
  with inv show ?thesis by simp
qed

lemma breaker_call_true_answer:
  assumes inv: "cached b \<longrightarrow> event b" and ans: "fst (breaker_call c b) = Answer True"
  shows "cached (snd (breaker_call c b)) \<and> event (snd (breaker_call c b))"
proof (cases c)
  case (IsTripped g now now')
  with inv ans show ?thesis
    by (auto simp: is_tripped_def Let_def split: if_splits)
next
  case (Trip r)
  with ans show ?thesis
    by (cases "reason b = Free") (simp_all add: trip_empty_slot trip_filled_slot)
next
  case (TripElsewhere r)
  with ans show ?thesis by simp
next
  case ConsumeReason
  with ans show ?thesis
    by (cases "reason b") (simp_all add: consume_reason_def get_nowait_def)
next
  case Feed
  with ans show ?thesis by simp
qed

lemma breaker_call_stays_tripped:
  assumes set: "cached b \<and> event b"
  shows "cached (snd (breaker_call c b)) \<and> event (snd (breaker_call c b)) \<and>
     fst (breaker_call c b) \<noteq> Answer False"
proof (cases c)
  case (Trip r)
  with set show ?thesis
    by (cases "reason b = Free") (simp_all add: trip_empty_slot trip_filled_slot)
next
  case (TripElsewhere r)
  with set show ?thesis
    by (cases "reason b = Free") (simp_all add: trip_elsewhere_empty_slot trip_elsewhere_filled_slot)
next
  case (IsTripped g now now')
  with set show ?thesis
    by (simp add: is_tripped_def Let_def)
next
  case ConsumeReason
  with set show ?thesis
    by (cases "reason b") (simp_all add: consume_reason_def get_nowait_def)
next
  case Feed
  with set show ?thesis by simp
qed

lemma answers_all_true:
  "cached b \<and> event b \<Longrightarrow> \<forall>t \<in> set (answers (fst (breaker_calls cs b))). t"
proof (induction cs arbitrary: b)
  case Nil
  show ?case by simp
next
  case (Cons c cs)
  obtain out b1 where s1: "breaker_call c b = (out, b1)" by (cases "breaker_call c b")
  obtain outs b2 where s2: "breaker_calls cs b1 = (outs, b2)" by (cases "breaker_calls cs b1")
  have keep: "cached b1 \<and> event b1" and out: "out \<noteq> Answer False"
    using breaker_call_stays_tripped [OF Cons.prems, of c] s1 by simp_all
  have rest: "\<forall>t \<in> set (answers outs). t"
    using Cons.IH [OF keep] s2 by simp
  have "\<forall>t \<in> set (answers (out # outs)). t"
  proof (cases out)
    case (Answer t)
    with out have "t" by simp
    with Answer rest show ?thesis by simp
  qed (use rest in simp_all)
  then show ?case using s1 s2 by simp
qed

lemma answers_sorted:
  "cached b \<longrightarrow> event b \<Longrightarrow> sorted_wrt (\<longrightarrow>) (answers (fst (breaker_calls cs b)))"
proof (induction cs arbitrary: b)
  case Nil
  show ?case by simp
next
  case (Cons c cs)
  obtain out b1 where s1: "breaker_call c b = (out, b1)" by (cases "breaker_call c b")
  obtain outs b2 where s2: "breaker_calls cs b1 = (outs, b2)" by (cases "breaker_calls cs b1")
  have keep: "cached b1 \<longrightarrow> event b1"
    using breaker_call_keeps_consistent [OF Cons.prems, of c] s1 by simp
  have rest: "sorted_wrt (\<longrightarrow>) (answers outs)"
    using Cons.IH [OF keep] s2 by simp
  have "sorted_wrt (\<longrightarrow>) (answers (out # outs))"
  proof (cases out)
    case (Answer t)
    show ?thesis
    proof (cases t)
      case True
      have "cached b1 \<and> event b1"
        using breaker_call_true_answer [OF Cons.prems, of c] s1 Answer True by simp
      then have "\<forall>u \<in> set (answers outs). u"
        using answers_all_true [of b1 cs] s2 by simp
      with Answer rest show ?thesis by auto
    next
      case False
      with Answer rest show ?thesis by simp
    qed
  qed (use rest in simp_all)
  then show ?case using s1 s2 by simp
qed

lemma never_reverts_nth:
  assumes s: "sorted_wrt (\<longrightarrow>) xs" and h: "i < j \<and> j < length xs \<and> xs ! i"
  shows "xs ! j"
proof -
  from s have "\<forall>i j. i < j \<longrightarrow> j < length xs \<longrightarrow> (xs ! i \<longrightarrow> xs ! j)"
    unfolding sorted_wrt_iff_nth_less .
  then have "i < j \<longrightarrow> j < length xs \<longrightarrow> (xs ! i \<longrightarrow> xs ! j)"
    by (elim allE)
  with h show "xs ! j"
    by (elim conjE impE)
qed

lemma serial_poll:
  "threads_run (one_at_a_time i (IsTripped g now now') @ rest) (b, \<lambda>_. None) =
     fst (is_tripped g now now' b) #
       threads_run rest (snd (is_tripped g now now' b), \<lambda>_. None)"
proof (cases "(case g of None \<Rightarrow> granularity b | Some x \<Rightarrow> x) \<le> 0 \<or>
    now - checked b \<ge> (case g of None \<Rightarrow> granularity b | Some x \<Rightarrow> x)")
  case True
  then show ?thesis
    by (simp add: is_tripped_def Let_def)
next
  case False
  then show ?thesis
    by (simp add: is_tripped_def Let_def)
qed

lemma serial_whole:
  assumes "\<forall>g now now'. c \<noteq> IsTripped g now now'"
  shows "threads_run (one_at_a_time i c @ rest) (b, \<lambda>_. None) =
     threads_run rest (snd (breaker_call c b), \<lambda>_. None)"
  using assms by (cases c) simp_all

lemma serial_threads:
  "threads_run (concat (map (\<lambda>(i, c). one_at_a_time i c) ics)) (b, \<lambda>_. None) =
     answers (fst (breaker_calls (map snd ics) b))"
proof (induction ics arbitrary: b)
  case Nil
  show ?case by simp
next
  case (Cons ic ics)
  obtain i c where ic: "ic = (i, c)" by (cases ic)
  obtain out b1 where s1: "breaker_call c b = (out, b1)" by (cases "breaker_call c b")
  obtain outs b2 where s2: "breaker_calls (map snd ics) b1 = (outs, b2)"
    by (cases "breaker_calls (map snd ics) b1")
  have ih: "threads_run (concat (map (\<lambda>(i, c). one_at_a_time i c) ics)) (b1, \<lambda>_. None) =
      answers outs"
    using Cons.IH [of b1] s2 by simp
  show ?case
  proof (cases "\<exists>g now now'. c = IsTripped g now now'")
    case True
    then obtain g now now' where c: "c = IsTripped g now now'" by blast
    have "out = Answer (fst (is_tripped g now now' b))" "b1 = snd (is_tripped g now now' b)"
      using s1 c by (simp_all split: prod.splits)
    then show ?thesis
      using ih s1 s2 serial_poll [of i g now now' _ b]
      by (simp add: ic c del: one_at_a_time.simps threads_run.simps)
  next
    case False
    then have n: "\<forall>g now now'. c \<noteq> IsTripped g now now'" by blast
    have "answers (out # outs) = answers outs"
      using s1 n by (cases c) (auto split: sum.splits prod.splits)
    then show ?thesis
      using ih s1 s2 serial_whole [OF n, of i _ b]
      by (simp add: ic del: one_at_a_time.simps threads_run.simps)
  qed
qed

text \<open>
  C5 (as amended).  With \<open>g\<close> the granularity in force (the argument if given, else the
  constructor's): if \<open>g \<le> 0\<close> the call reads the event, stores it in the cache and
  returns it; if \<open>g > 0\<close> and less than \<open>g\<close> has elapsed since \<open>_checked\<close> the call
  returns the cached value and changes nothing; if \<open>g > 0\<close> and at least \<open>g\<close> has
  elapsed it reads the event again.  On every trace of calls that run one at a time
  (polls with any clock readings and granularities, trips here and elsewhere,
  \<open>consume_reason\<close>, deliveries of the feeder thread) on a copy whose cached flag is set
  only if the event is, as is the case for a newly constructed breaker, once a poll has
  answered \<open>True\<close> no later poll answers \<open>False\<close>.  Threads that take the steps of their
  calls on one copy without overlapping get exactly the answers of such a trace.
\<close>

theorem is_tripped_serial_monotone:
  "((case g of None \<Rightarrow> granularity b | Some x \<Rightarrow> x) \<le> 0 \<longrightarrow>
      is_tripped g now now' b = (event b, b\<lparr>cached := event b, checked := now'\<rparr>)) \<and>
   (0 < (case g of None \<Rightarrow> granularity b | Some x \<Rightarrow> x) \<and>
    now - checked b < (case g of None \<Rightarrow> granularity b | Some x \<Rightarrow> x) \<longrightarrow>
      is_tripped g now now' b = (cached b, b)) \<and>
   (0 < (case g of None \<Rightarrow> granularity b | Some x \<Rightarrow> x) \<and>
    now - checked b \<ge> (case g of None \<Rightarrow> granularity b | Some x \<Rightarrow> x) \<longrightarrow>
      is_tripped g now now' b = (event b, b\<lparr>cached := event b, checked := now'\<rparr>)) \<and>
   ((cached b \<longrightarrow> event b) \<longrightarrow>
      (\<forall>i j. i < j \<and> j < length (answers (fst (breaker_calls cs b))) \<and>
         answers (fst (breaker_calls cs b)) ! i \<longrightarrow>
         answers (fst (breaker_calls cs b)) ! j)) \<and>
   (\<forall>i j. i < j \<and> j < length (answers (fst (breaker_calls cs (breaker_init g0 t0)))) \<and>
         answers (fst (breaker_calls cs (breaker_init g0 t0 :: 'a breaker))) ! i \<longrightarrow>
         answers (fst (breaker_calls cs (breaker_init g0 t0 :: 'a breaker))) ! j) \<and>
   threads_run (concat (map (\<lambda>(i, c). one_at_a_time i c) ics)) (b, \<lambda>_. None) =
     answers (fst (breaker_calls (map snd ics) b))"
proof -
  have mono: "\<forall>i j. i < j \<and> j < length (answers (fst (breaker_calls cs c))) \<and>
         answers (fst (breaker_calls cs c)) ! i \<longrightarrow>
         answers (fst (breaker_calls cs c)) ! j"
    if "cached c \<longrightarrow> event c" for c :: "'a breaker"
  proof (intro allI impI)
    fix i j
    assume h: "i < j \<and> j < length (answers (fst (breaker_calls cs c))) \<and>
         answers (fst (breaker_calls cs c)) ! i"
    have "sorted_wrt (\<longrightarrow>) (answers (fst (breaker_calls cs c)))"
      using answers_sorted [OF that] .
    then show "answers (fst (breaker_calls cs c)) ! j"
      using h by (rule never_reverts_nth)
  qed
  have fresh: "cached (breaker_init g0 t0 :: 'a breaker) \<longrightarrow> event (breaker_init g0 t0 :: 'a breaker)"
    by (simp add: breaker_init_def)
  have rules: "((case g of None \<Rightarrow> granularity b | Some x \<Rightarrow> x) \<le> 0 \<longrightarrow>
      is_tripped g now now' b = (event b, b\<lparr>cached := event b, checked := now'\<rparr>)) \<and>
   (0 < (case g of None \<Rightarrow> granularity b | Some x \<Rightarrow> x) \<and>
    now - checked b < (case g of None \<Rightarrow> granularity b | Some x \<Rightarrow> x) \<longrightarrow>
      is_tripped g now now' b = (cached b, b)) \<and>
   (0 < (case g of None \<Rightarrow> granularity b | Some x \<Rightarrow> x) \<and>
    now - checked b \<ge> (case g of None \<Rightarrow> granularity b | Some x \<Rightarrow> x) \<longrightarrow>
      is_tripped g now now' b = (event b, b\<lparr>cached := event b, checked := now'\<rparr>))"
    using is_tripped_refresh [where g = g and b = b and now = now and now' = now']
      is_tripped_cached [where g = g and b = b and now = now and now' = now']
    by blast
  have m1: "(cached b \<longrightarrow> event b) \<longrightarrow>
      (\<forall>i j. i < j \<and> j < length (answers (fst (breaker_calls cs b))) \<and>
         answers (fst (breaker_calls cs b)) ! i \<longrightarrow>
         answers (fst (breaker_calls cs b)) ! j)"
    using mono [of b] by (intro impI)
  show ?thesis
    using rules [THEN conjunct1] rules [THEN conjunct2, THEN conjunct1]
      rules [THEN conjunct2, THEN conjunct2] m1 mono [OF fresh] serial_threads [of ics b]
    by (intro conjI)
qed

theorem is_tripped_serial_monotone_witness:
  "is_tripped (Some 0) 5 6 (trip_elsewhere ''stop'' (breaker_init (1 / 10) 5)) =
     (True, \<lparr>cached = True, checked = 6, granularity = 1 / 10, event = True,
             reason = Buffered ''stop''\<rparr>) \<and>
   is_tripped None (101 / 20) 6 (trip_elsewhere ''stop'' (breaker_init (1 / 10) 5)) =
     (False, trip_elsewhere ''stop'' (breaker_init (1 / 10) 5)) \<and>
   is_tripped None (26 / 5) 6 (trip_elsewhere ''stop'' (breaker_init (1 / 10) 5)) =
     (True, \<lparr>cached = True, checked = 6, granularity = 1 / 10, event = True,
             reason = Buffered ''stop''\<rparr>) \<and>
   answers (fst (breaker_calls
       [IsTripped None (251 / 50) (251 / 50), TripElsewhere ''stop'',
        IsTripped None (101 / 20) (101 / 20), IsTripped (Some 0) (103 / 20) (103 / 20),
        Feed, ConsumeReason, IsTripped None (104 / 20) (104 / 20)]
       (breaker_init (1 / 10) 5))) = [False, False, True, True]"
  using is_tripped_serial_monotone [where g = "Some 0" and now = 5 and now' = 6
      and b = "trip_elsewhere ''stop'' (breaker_init (1 / 10) 5)"
      and cs = "[]" and ?g0.0 = "1 / 10" and ?t0.0 = 5 and ics = "[]"]
    is_tripped_serial_monotone [where g = None and now = "101 / 20" and now' = 6
      and b = "trip_elsewhere ''stop'' (breaker_init (1 / 10) 5)"
      and cs = "[IsTripped None (251 / 50) (251 / 50), TripElsewhere ''stop'',
        IsTripped None (101 / 20) (101 / 20), IsTripped (Some 0) (103 / 20) (103 / 20),
        Feed, ConsumeReason, IsTripped None (104 / 20) (104 / 20)]"
      and ?g0.0 = "1 / 10" and ?t0.0 = 5 and ics = "[]"]
    is_tripped_serial_monotone [where g = None and now = "26 / 5" and now' = 6
      and b = "trip_elsewhere ''stop'' (breaker_init (1 / 10) 5)"
      and cs = "[]" and ?g0.0 = "1 / 10" and ?t0.0 = 5 and ics = "[]"]
  by (simp add: breaker_init_def trip_elsewhere_def trip_def put_nowait_def is_tripped_def
      consume_reason_def get_nowait_def feed_def)

text \<open>
  The claim as stated, for every trace, fails when calls overlap.  In a work process
  whose copy was checked at time 0: the main thread enters \<open>is_tripped\<close> at 0.2, decides
  to refresh and reads the event, not yet set; another process trips the breaker; a
  pool thread enters, refreshes, and its call returns \<open>True\<close>; the main thread stores
  the value it had read, \<open>False\<close>, and its call returns \<open>False\<close>; a call begun at 0.25,
  inside the granularity, returns the cached \<open>False\<close> too.
\<close>

theorem is_tripped_overlap_counterexample:
  "threads_run
     [Enter 1 None, Advance 1 (1 / 5), Advance 1 (1 / 5),
      Whole (TripElsewhere ''stop''),
      Enter 2 None, Advance 2 (1 / 5), Advance 2 (1 / 5), Advance 2 (1 / 5),
      Advance 2 (21 / 100), Advance 2 (21 / 100),
      Advance 1 (11 / 50), Advance 1 (11 / 50), Advance 1 (11 / 50),
      Enter 3 None, Advance 3 (1 / 4), Advance 3 (1 / 4)]
     (breaker_init (1 / 10) 0, \<lambda>i. None) = [True, False, False]"
  by (simp add: breaker_init_def trip_elsewhere_def trip_def put_nowait_def)

subsection \<open>ThreadingSmoothRateLimiter: pacing\<close>

lemma wait_returns:
  assumes "0 \<le> report_interval_seconds l"
  shows "\<exists>slept logged l'. wait entry_time l = Inr (slept, logged, l')"
proof -
  have "entry_time - last_report l \<noteq> 0"
    if "last_report l < entry_time - report_interval_seconds l"
    using that assms by linarith
  then show ?thesis
    by (simp add: wait_def Let_def)
qed

lemma wait_pacing:
  assumes "wait entry_time l = Inr (slept, logged, l')"
  shows "slept = max 0 (delay l - (entry_time - last_time l)) \<and>
         last_time l' = entry_time + slept \<and>
         delay l' = delay l \<and>
         report_interval_seconds l' = report_interval_seconds l"
  using assms by (auto simp: wait_def Let_def max_def split: if_splits)

lemma wait_release_spacing:
  assumes "wait entry_time l = Inr (slept, logged, l')"
  shows "last_time l + delay l \<le> last_time l'" and "0 \<le> slept"
  using wait_pacing [OF assms] by (simp_all add: max_def split: if_splits)

lemma wait_sleep_bound:
  assumes "wait entry_time l = Inr (slept, logged, l')"
    and "0 \<le> delay l" and "last_time l \<le> entry_time"
  shows "slept \<le> delay l"
  using wait_pacing [OF assms(1)] assms(2,3) by (simp add: max_def split: if_splits)

lemma wait_ignores_report_state:
  assumes "wait entry_time l = Inr (slept, logged, l')"
    and "wait entry_time m = Inr (slept', logged', m')"
    and "last_time m = last_time l" and "delay m = delay l"
  shows "slept' = slept \<and> last_time m' = last_time l' \<and> delay m' = delay l'"
  using wait_pacing [OF assms(1)] wait_pacing [OF assms(2)] assms(3,4) by simp

lemma plausible_releases:
  assumes "plausible prev cs l"
  shows "releases cs l = map2 (+) (map fst cs) (sleeps cs l)"
  using assms
proof (induction cs arbitrary: prev l)
  case Nil
  show ?case by simp
next
  case (Cons c cs)
  obtain entry_time returned where c: "c = (entry_time, returned)" by (cases c)
  from Cons.prems c obtain slept logged l' where
    w: "wait entry_time l = Inr (slept, logged, l')" and
    rest: "plausible returned cs l'"
    by (auto split: sum.splits)
  have "last_time l' = entry_time + slept"
    using wait_pacing [OF w] by simp
  then show ?case
    using Cons.IH [OF rest] by (simp add: c w)
qed

lemma plausible_trace:
  assumes "0 \<le> delay l" and "last_time l \<le> prev" and "plausible prev cs l"
  shows "length (sleeps cs l) = length cs \<and>
         list_all (\<lambda>s. 0 \<le> s \<and> s \<le> delay l) (sleeps cs l) \<and>
         list_all2 (\<le>) (releases cs l) (map snd cs) \<and>
         spaced (delay l) (last_time l # releases cs l)"
  using assms
proof (induction cs arbitrary: prev l)
  case Nil
  show ?case by simp
next
  case (Cons c cs)
  obtain entry_time returned where c: "c = (entry_time, returned)" by (cases c)
  from Cons.prems(3) c obtain slept logged l' where
    w: "wait entry_time l = Inr (slept, logged, l')" and
    clock: "prev \<le> entry_time" and woke: "entry_time + slept \<le> returned" and
    rest: "plausible returned cs l'"
    by (auto split: sum.splits)
  have p: "last_time l' = entry_time + slept" "delay l' = delay l"
    using wait_pacing [OF w] by simp_all
  have b: "0 \<le> slept" "slept \<le> delay l" "last_time l + delay l \<le> last_time l'"
    using wait_release_spacing [OF w] wait_sleep_bound [OF w Cons.prems(1)]
      Cons.prems(2) clock by simp_all
  have "0 \<le> delay l'" "last_time l' \<le> returned"
    using p Cons.prems(1) woke by simp_all
  from Cons.IH [OF this rest] have ih:
    "length (sleeps cs l') = length cs"
    "list_all (\<lambda>s. 0 \<le> s \<and> s \<le> delay l) (sleeps cs l')"
    "list_all2 (\<le>) (releases cs l') (map snd cs)"
    "spaced (delay l) (last_time l' # releases cs l')"
    using p(2) by simp_all
  have s: "sleeps (c # cs) l = slept # sleeps cs l'"
    and r: "releases (c # cs) l = last_time l' # releases cs l'"
    by (simp_all add: c w)
  have "length (sleeps (c # cs) l) = length (c # cs)"
    using ih(1) by (simp add: s)
  moreover have "list_all (\<lambda>s. 0 \<le> s \<and> s \<le> delay l) (sleeps (c # cs) l)"
    using ih(2) b by (simp add: s)
  moreover have "list_all2 (\<le>) (releases (c # cs) l) (map snd (c # cs))"
    using ih(3) woke p(1) by (simp add: c w)
  moreover have "spaced (delay l) (last_time l # releases (c # cs) l)"
    using ih(4) b(3) by (simp add: r)
  ultimately show ?case by blast
qed

text \<open>
  Three calls on a limiter of one call per second, evaluated: the first at clock
  reading 10 on the new limiter, the second at 10 again, the third at 11.5.
\<close>

lemma wait_example_first:
  "wait 10 \<lparr>last_time = 0, last_report = 0, delay = 1, report_interval_seconds = 5,
      report_count = 0\<rparr> =
     Inr (0, None, \<lparr>last_time = 10, last_report = 10, delay = 1,
      report_interval_seconds = 5, report_count = 1\<rparr>)"
  by (simp add: wait_def Let_def)

lemma wait_example_second:
  "wait 10 \<lparr>last_time = 10, last_report = 10, delay = 1, report_interval_seconds = 5,
      report_count = 1\<rparr> =
     Inr (1, None, \<lparr>last_time = 11, last_report = 10, delay = 1,
      report_interval_seconds = 5, report_count = 2\<rparr>)"
  by (simp add: wait_def Let_def)

lemma wait_example_third:
  "wait (23 / 2) \<lparr>last_time = 11, last_report = 10, delay = 1,
      report_interval_seconds = 5, report_count = 2\<rparr> =
     Inr (1 / 2, None, \<lparr>last_time = 12, last_report = 10, delay = 1,
      report_interval_seconds = 5, report_count = 3\<rparr>)"
  by (simp add: wait_def Let_def)

lemma plausible_example:
  "plausible 0 [(10, 10), (10, 23 / 2), (23 / 2, 12)]
     \<lparr>last_time = 0, last_report = 0, delay = 1, report_interval_seconds = 5,
      report_count = 0\<rparr>"
  by (simp add: wait_example_first wait_example_second wait_example_third)

text \<open>
  C6 (as amended).  A call of \<open>wait\<close> on a limiter with a non-negative report interval
  returns normally.  The sleep it asks for is \<open>max(0, remaining)\<close> with
  \<open>remaining = delay - (entry_time - last_time)\<close>, and \<open>_last_time\<close> becomes
  \<open>entry_time\<close> plus that sleep, at least \<open>delay\<close> after its previous value; \<open>delay\<close>
  is unchanged.  Two limiters that agree on \<open>_last_time\<close> and \<open>delay\<close> ask for the same
  sleep and store the same \<open>_last_time\<close> whatever their report attributes are.  For a
  rate \<open>r > 0\<close> the constructor gives \<open>delay = 1/r\<close>, and on every sequence of calls
  that can happen on the limiter (first clock reading not below the initial
  \<open>_last_time = 0\<close>, each entry not before the previous return, each return not before
  the end of the sleep asked for): every call asks for a sleep between \<open>0\<close> and
  \<open>delay\<close>; the values of \<open>_last_time\<close> after successive calls are at least \<open>delay\<close>
  apart; each call returns no earlier than the \<open>_last_time\<close> it stores; and if every
  call returns exactly then (no sleep runs long) the returns are at least \<open>delay\<close> apart.
\<close>

theorem wait_paces_release_times:
  "(0 \<le> report_interval_seconds l \<longrightarrow>
      (\<exists>slept logged l'. wait entry_time l = Inr (slept, logged, l'))) \<and>
   (\<forall>slept logged l'. wait entry_time l = Inr (slept, logged, l') \<longrightarrow>
      slept = max 0 (delay l - (entry_time - last_time l)) \<and>
      last_time l' = entry_time + max 0 (delay l - (entry_time - last_time l)) \<and>
      last_time l + delay l \<le> last_time l' \<and>
      delay l' = delay l \<and>
      (\<forall>m slept' logged' m'.
         wait entry_time m = Inr (slept', logged', m') \<and>
         last_time m = last_time l \<and> delay m = delay l \<longrightarrow>
         slept' = slept \<and> last_time m' = last_time l' \<and> delay m' = delay l')) \<and>
   (0 < r \<longrightarrow>
      (\<exists>l0. limiter_init r interval = Inr l0 \<and> delay l0 = 1 / r \<and> last_time l0 = 0 \<and>
         (plausible 0 cs l0 \<longrightarrow>
            length (sleeps cs l0) = length cs \<and>
            list_all (\<lambda>s. 0 \<le> s \<and> s \<le> 1 / r) (sleeps cs l0) \<and>
            releases cs l0 = map2 (+) (map fst cs) (sleeps cs l0) \<and>
            spaced (1 / r) (releases cs l0) \<and>
            list_all2 (\<le>) (releases cs l0) (map snd cs) \<and>
            (map snd cs = releases cs l0 \<longrightarrow> spaced (1 / r) (map snd cs)))))"
proof (intro conjI)
  show "0 \<le> report_interval_seconds l \<longrightarrow>
      (\<exists>slept logged l'. wait entry_time l = Inr (slept, logged, l'))"
    using wait_returns [of l entry_time] by (intro impI)
next
  show "\<forall>slept logged l'. wait entry_time l = Inr (slept, logged, l') \<longrightarrow>
      slept = max 0 (delay l - (entry_time - last_time l)) \<and>
      last_time l' = entry_time + max 0 (delay l - (entry_time - last_time l)) \<and>
      last_time l + delay l \<le> last_time l' \<and>
      delay l' = delay l \<and>
      (\<forall>m slept' logged' m'.
         wait entry_time m = Inr (slept', logged', m') \<and>
         last_time m = last_time l \<and> delay m = delay l \<longrightarrow>
         slept' = slept \<and> last_time m' = last_time l' \<and> delay m' = delay l')"
  proof (intro allI impI)
    fix slept logged l'
    assume w: "wait entry_time l = Inr (slept, logged, l')"
    have a: "slept = max 0 (delay l - (entry_time - last_time l))"
      "last_time l' = entry_time + slept" "delay l' = delay l"
      using wait_pacing [OF w] by simp_all
    have b: "last_time l + delay l \<le> last_time l'"
      using wait_release_spacing(1) [OF w] .
    have c: "\<forall>m slept' logged' m'.
         wait entry_time m = Inr (slept', logged', m') \<and>
         last_time m = last_time l \<and> delay m = delay l \<longrightarrow>
         slept' = slept \<and> last_time m' = last_time l' \<and> delay m' = delay l'"
    proof (intro allI impI)
      fix m slept' logged' m'
      assume h: "wait entry_time m = Inr (slept', logged', m') \<and>
         last_time m = last_time l \<and> delay m = delay l"
      show "slept' = slept \<and> last_time m' = last_time l' \<and> delay m' = delay l'"
        using wait_ignores_report_state [OF w, of m slept' logged' m'] h by simp
    qed
    have a2: "last_time l' = entry_time + max 0 (delay l - (entry_time - last_time l))"
      using a(1,2) by simp
    show "slept = max 0 (delay l - (entry_time - last_time l)) \<and>
      last_time l' = entry_time + max 0 (delay l - (entry_time - last_time l)) \<and>
      last_time l + delay l \<le> last_time l' \<and>
      delay l' = delay l \<and>
      (\<forall>m slept' logged' m'.
         wait entry_time m = Inr (slept', logged', m') \<and>
         last_time m = last_time l \<and> delay m = delay l \<longrightarrow>
         slept' = slept \<and> last_time m' = last_time l' \<and> delay m' = delay l')"
      using a(1) a2 b a(3) c by (intro conjI)
  qed
next
  show "0 < r \<longrightarrow>
      (\<exists>l0. limiter_init r interval = Inr l0 \<and> delay l0 = 1 / r \<and> last_time l0 = 0 \<and>
         (plausible 0 cs l0 \<longrightarrow>
            length (sleeps cs l0) = length cs \<and>
            list_all (\<lambda>s. 0 \<le> s \<and> s \<le> 1 / r) (sleeps cs l0) \<and>
            releases cs l0 = map2 (+) (map fst cs) (sleeps cs l0) \<and>
            spaced (1 / r) (releases cs l0) \<and>
            list_all2 (\<le>) (releases cs l0) (map snd cs) \<and>
            (map snd cs = releases cs l0 \<longrightarrow> spaced (1 / r) (map snd cs))))"
  proof (intro impI)
    assume r: "0 < r"
    define l0 where "l0 = \<lparr>last_time = 0, last_report = 0, delay = 1 / r,
       report_interval_seconds = interval, report_count = 0\<rparr>"
    have i: "limiter_init r interval = Inr l0" "delay l0 = 1 / r" "last_time l0 = 0"
      using r by (simp_all add: limiter_init_def l0_def)
    have d: "0 \<le> delay l0" using i(2) r by simp
    have t: "length (sleeps cs l0) = length cs \<and>
            list_all (\<lambda>s. 0 \<le> s \<and> s \<le> 1 / r) (sleeps cs l0) \<and>
            releases cs l0 = map2 (+) (map fst cs) (sleeps cs l0) \<and>
            spaced (1 / r) (releases cs l0) \<and>
            list_all2 (\<le>) (releases cs l0) (map snd cs) \<and>
            (map snd cs = releases cs l0 \<longrightarrow> spaced (1 / r) (map snd cs))"
      if pl: "plausible 0 cs l0"
    proof -
      have all: "length (sleeps cs l0) = length cs \<and>
         list_all (\<lambda>s. 0 \<le> s \<and> s \<le> delay l0) (sleeps cs l0) \<and>
         list_all2 (\<le>) (releases cs l0) (map snd cs) \<and>
         spaced (delay l0) (last_time l0 # releases cs l0)"
        using plausible_trace [OF d _ pl] i(3) by simp
      then have "spaced (1 / r) (0 # releases cs l0)"
        using i by simp
      then have sp: "spaced (1 / r) (releases cs l0)"
        by (cases "releases cs l0") simp_all
      have len: "length (sleeps cs l0) = length cs"
        and sl: "list_all (\<lambda>s. 0 \<le> s \<and> s \<le> 1 / r) (sleeps cs l0)"
        and late: "list_all2 (\<le>) (releases cs l0) (map snd cs)"
        using all i(2) by simp_all
      have exact: "map snd cs = releases cs l0 \<longrightarrow> spaced (1 / r) (map snd cs)"
      proof (intro impI)
        assume e: "map snd cs = releases cs l0"
        show "spaced (1 / r) (map snd cs)"
          using sp by (simp only: e)
      qed
      show ?thesis
        using len sl plausible_releases [OF pl] sp late exact by (intro conjI)
    qed
    have "plausible 0 cs l0 \<longrightarrow>
            length (sleeps cs l0) = length cs \<and>
            list_all (\<lambda>s. 0 \<le> s \<and> s \<le> 1 / r) (sleeps cs l0) \<and>
            releases cs l0 = map2 (+) (map fst cs) (sleeps cs l0) \<and>
            spaced (1 / r) (releases cs l0) \<and>
            list_all2 (\<le>) (releases cs l0) (map snd cs) \<and>
            (map snd cs = releases cs l0 \<longrightarrow> spaced (1 / r) (map snd cs))"
      using t by (intro impI)
    with i show "\<exists>l0. limiter_init r interval = Inr l0 \<and> delay l0 = 1 / r \<and>
         last_time l0 = 0 \<and>
         (plausible 0 cs l0 \<longrightarrow>
            length (sleeps cs l0) = length cs \<and>
            list_all (\<lambda>s. 0 \<le> s \<and> s \<le> 1 / r) (sleeps cs l0) \<and>
            releases cs l0 = map2 (+) (map fst cs) (sleeps cs l0) \<and>
            spaced (1 / r) (releases cs l0) \<and>
            list_all2 (\<le>) (releases cs l0) (map snd cs) \<and>
            (map snd cs = releases cs l0 \<longrightarrow> spaced (1 / r) (map snd cs)))"
      by (intro exI [of _ l0] conjI)
  qed
qed

theorem wait_paces_release_times_witness:
  "(0 :: real) < 1 \<and>
   limiter_init 1 5 =
     Inr \<lparr>last_time = 0, last_report = 0, delay = 1, report_interval_seconds = 5,
          report_count = 0\<rparr> \<and>
   plausible 0 [(10, 10), (10, 23 / 2), (23 / 2, 12)]
     \<lparr>last_time = 0, last_report = 0, delay = 1, report_interval_seconds = 5,
      report_count = 0\<rparr> \<and>
   spaced 1 (releases [(10, 10), (10, 23 / 2), (23 / 2, 12)]
     \<lparr>last_time = 0, last_report = 0, delay = 1, report_interval_seconds = 5,
      report_count = 0\<rparr>) \<and>
   list_all (\<lambda>s. 0 \<le> s \<and> s \<le> 1) (sleeps [(10, 10), (10, 23 / 2), (23 / 2, 12)]
     \<lparr>last_time = 0, last_report = 0, delay = 1, report_interval_seconds = 5,
      report_count = 0\<rparr>) \<and>
   releases [(10, 10), (10, 23 / 2), (23 / 2, 12)]
     \<lparr>last_time = 0, last_report = 0, delay = 1, report_interval_seconds = 5,
      report_count = 0\<rparr> = [10, 11, 12] \<and>
   (\<exists>slept logged l'.
      wait 10 \<lparr>last_time = 10, last_report = 10, delay = 1, report_interval_seconds = 5,
        report_count = 1\<rparr> = Inr (slept, logged, l'))"
proof -
  let ?cs = "[(10, 10), (10, 23 / 2), (23 / 2, 12)] :: (real \<times> real) list"
  let ?l0 = "\<lparr>last_time = 0, last_report = 0, delay = 1, report_interval_seconds = 5,
      report_count = 0\<rparr>"
  let ?l1 = "\<lparr>last_time = 10, last_report = 10, delay = 1, report_interval_seconds = 5,
      report_count = 1\<rparr>"
  note all = wait_paces_release_times [where r = 1 and interval = 5
      and cs = ?cs and entry_time = 10 and l = ?l1]
  have init: "limiter_init 1 5 = Inr ?l0"
    by (simp add: limiter_init_def)
  have returns: "\<exists>slept logged l'. wait 10 ?l1 = Inr (slept, logged, l')"
    using all [THEN conjunct1] by simp
  have trace: "spaced 1 (releases ?cs ?l0) \<and>
     list_all (\<lambda>s. 0 \<le> s \<and> s \<le> 1) (sleeps ?cs ?l0)"
  proof -
    from all [THEN conjunct2, THEN conjunct2, THEN mp, OF zero_less_one]
    obtain l0 where i: "limiter_init 1 5 = Inr l0"
      and t: "plausible 0 ?cs l0 \<longrightarrow>
        length (sleeps ?cs l0) = length ?cs \<and>
        list_all (\<lambda>s. 0 \<le> s \<and> s \<le> 1 / 1) (sleeps ?cs l0) \<and>
        releases ?cs l0 = map2 (+) (map fst ?cs) (sleeps ?cs l0) \<and>
        spaced (1 / 1) (releases ?cs l0) \<and>
        list_all2 (\<le>) (releases ?cs l0) (map snd ?cs) \<and>
        (map snd ?cs = releases ?cs l0 \<longrightarrow> spaced (1 / 1) (map snd ?cs))"
      by (elim exE conjE)
    have e: "l0 = ?l0"
      using i init by simp
    have "plausible 0 ?cs l0"
      unfolding e by (rule plausible_example)
    note facts = t [THEN mp, OF this]
    have "spaced (1 / 1) (releases ?cs l0)"
      using facts [THEN conjunct2, THEN conjunct2, THEN conjunct2, THEN conjunct1] .
    moreover have "list_all (\<lambda>s. 0 \<le> s \<and> s \<le> 1 / 1) (sleeps ?cs l0)"
      using facts [THEN conjunct2, THEN conjunct1] .
    ultimately show ?thesis
      unfolding e by simp
  qed
  have rel: "releases ?cs ?l0 = [10, 11, 12]"
    by (simp add: wait_example_first wait_example_second wait_example_third)
  show ?thesis
    using init plausible_example trace rel returns by (intro conjI) simp_all
qed

text \<open>
  The claim as stated, that successive returns are at least \<open>delay\<close> apart, fails when
  a sleep runs long.  With one call per second allowed: the first call enters and
  returns at 10; the second enters at 10, asks for a sleep of 1 and returns at 11.5,
  half a second late; the third enters at 11.5, asks for only the half second left
  until 12 and returns at 12.  The sequence can happen, and the last two returns are
  half a second apart.
\<close>

theorem wait_return_spacing_counterexample:
  "limiter_init 1 5 =
     Inr \<lparr>last_time = 0, last_report = 0, delay = 1, report_interval_seconds = 5,
          report_count = 0\<rparr> \<and>
   plausible 0 [(10, 10), (10, 23 / 2), (23 / 2, 12)]
     \<lparr>last_time = 0, last_report = 0, delay = 1, report_interval_seconds = 5,
      report_count = 0\<rparr> \<and>
   \<not> spaced 1 (map snd [(10, 10), (10, 23 / 2), (23 / 2, 12)])"
  using plausible_example by (simp add: limiter_init_def)

subsection \<open>ThreadingBoundedExecutor: permits\<close>

text \<open>
  The invariant: the permits left and the futures not yet done add up to the initial
  value of the semaphore, no permit count is negative, and the futures in the pool are
  distinct and older than the next one.
\<close>

lemma submit_blocked:
  "semaphore_value s \<le> 0 \<Longrightarrow> submit handoff_ok s = (SubmitBlocked, s)"
  by (simp add: submit_def acquire_def)

lemma submit_handoff_fails:
  assumes "0 < semaphore_value s" and "semaphore_value s \<le> semaphore_initial s"
    and "pool_shutdown s \<or> \<not> handoff_ok"
  shows "submit handoff_ok s = (SubmitRaised RuntimeError, s)"
  using assms by (auto simp: submit_def acquire_def release_def)

lemma submit_handoff_succeeds:
  assumes "0 < semaphore_value s" and "\<not> pool_shutdown s" and "handoff_ok"
  shows "submit handoff_ok s =
     (SubmitReturned (next_future s),
      s\<lparr>futures := futures s @ [next_future s], next_future := Suc (next_future s),
        semaphore_value := semaphore_value s - 1\<rparr>)"
  using assms by (simp add: submit_def acquire_def)

lemma future_done_releases:
  assumes "f \<in> set (futures s)" and "semaphore_value s < semaphore_initial s"
  shows "future_done f task_raised s =
     (None, s\<lparr>futures := removeAll f (futures s), semaphore_value := semaphore_value s + 1\<rparr>)"
  using assms by (simp add: future_done_def release_def)

lemma future_done_unknown:
  "f \<notin> set (futures s) \<Longrightarrow> future_done f task_raised s = (None, s)"
  by (simp add: future_done_def)

lemma executor_step_invariant:
  assumes "0 \<le> semaphore_value s"
    and "semaphore_value s + int (length (futures s)) = semaphore_initial s"
    and "distinct (futures s)" and "\<forall>f \<in> set (futures s). f < next_future s"
  shows "0 \<le> semaphore_value (snd (executor_step ev s)) \<and>
         semaphore_value (snd (executor_step ev s)) +
           int (length (futures (snd (executor_step ev s)))) =
           semaphore_initial (snd (executor_step ev s)) \<and>
         distinct (futures (snd (executor_step ev s))) \<and>
         (\<forall>f \<in> set (futures (snd (executor_step ev s))).
            f < next_future (snd (executor_step ev s))) \<and>
         semaphore_initial (snd (executor_step ev s)) = semaphore_initial s \<and>
         fst (executor_step ev s) \<noteq> Some ValueError"
proof (cases ev)
  case (Submit handoff_ok)
  have le: "semaphore_value s \<le> semaphore_initial s"
    using assms(2) by linarith
  consider "semaphore_value s \<le> 0"
    | "0 < semaphore_value s" "pool_shutdown s \<or> \<not> handoff_ok"
    | "0 < semaphore_value s" "\<not> pool_shutdown s" "handoff_ok"
    by fastforce
  then show ?thesis
  proof cases
    case 1
    then show ?thesis
      using assms Submit by (simp add: submit_blocked)
  next
    case 2
    then show ?thesis
      using assms Submit le by (simp add: submit_handoff_fails)
  next
    case 3
    have "\<forall>f \<in> set (futures s). f \<noteq> next_future s"
      using assms(4) by auto
    then show ?thesis
      using assms Submit 3 by (auto simp: submit_handoff_succeeds)
  qed
next
  case (FutureDone f task_raised)
  show ?thesis
  proof (cases "f \<in> set (futures s)")
    case True
    then have pos: "0 < length (futures s)"
      by (cases "futures s") simp_all
    then have lt: "semaphore_value s < semaphore_initial s"
      using assms(2) by linarith
    have len: "length (removeAll f (futures s)) = length (futures s) - 1"
      using True assms(3) by (simp add: distinct_remove1_removeAll [symmetric] length_remove1)
    have "int (length (removeAll f (futures s))) = int (length (futures s)) - 1"
      using len pos by linarith
    then show ?thesis
      using assms FutureDone True lt by (simp add: future_done_releases distinct_removeAll)
  next
    case False
    then show ?thesis
      using assms FutureDone by (simp add: future_done_unknown)
  qed
next
  case (Shutdown wait_all)
  then show ?thesis
    using assms by (simp add: shutdown_def)
qed

lemma executor_run_invariant:
  assumes "0 \<le> semaphore_value s"
    and "semaphore_value s + int (length (futures s)) = semaphore_initial s"
    and "distinct (futures s)" and "\<forall>f \<in> set (futures s). f < next_future s"
  shows "0 \<le> semaphore_value (snd (executor_run evs s)) \<and>
         semaphore_value (snd (executor_run evs s)) +
           int (length (futures (snd (executor_run evs s)))) = semaphore_initial s \<and>
         distinct (futures (snd (executor_run evs s))) \<and>
         Some ValueError \<notin> set (fst (executor_run evs s))"
  using assms
proof (induction evs arbitrary: s)
  case Nil
  then show ?case by simp
next
  case (Cons ev evs)
  obtain x s1 where s1: "executor_step ev s = (x, s1)" by (cases "executor_step ev s")
  obtain xs s2 where s2: "executor_run evs s1 = (xs, s2)" by (cases "executor_run evs s1")
  note step = executor_step_invariant [OF Cons.prems, of ev]
  have a: "0 \<le> semaphore_value s1"
    and b: "semaphore_value s1 + int (length (futures s1)) = semaphore_initial s1"
    and c: "distinct (futures s1)"
    and d: "\<forall>f \<in> set (futures s1). f < next_future s1"
    and e: "semaphore_initial s1 = semaphore_initial s"
    and f: "x \<noteq> Some ValueError"
    using step s1 by simp_all
  show ?case
    using Cons.IH [OF a b c d] e f s1 s2 by auto
qed

text \<open>
  C7.  An executor constructed with \<open>W\<close> workers and backlog \<open>B\<close> starts with \<open>W + B\<close>
  permits and no futures.  After any history of \<open>submit\<close> calls (whether or not the
  pool accepts the task), futures becoming done (whether the task returned or raised)
  and \<open>shutdown\<close> calls: the permit count is not negative; permits left plus futures
  not yet done (queued or running) equal \<open>W + B\<close>, so those futures never exceed
  \<open>W + B\<close>; and no \<open>release\<close> ever overflows the bounded semaphore, that is, no permit
  is handed back twice.  Call by call: \<open>submit\<close> blocks while no permit is left; if the
  handoff raises, the permit taken is handed back, the executor is as before and
  \<open>RuntimeError\<close> reaches the caller; otherwise one permit is gone and the new future is
  in the pool; a future becoming done leaves the pool and hands back one permit, after
  which it is no longer in the pool and cannot hand back another.
\<close>

theorem bounded_executor_permits:
  "(executor_init B W = Inr s0 \<longrightarrow>
      semaphore_initial s0 = W + B \<and> semaphore_value s0 = W + B \<and> futures s0 = [] \<and>
      0 \<le> semaphore_value (snd (executor_run evs s0)) \<and>
      semaphore_value (snd (executor_run evs s0)) +
        int (length (futures (snd (executor_run evs s0)))) = W + B \<and>
      int (length (futures (snd (executor_run evs s0)))) \<le> W + B \<and>
      Some ValueError \<notin> set (fst (executor_run evs s0))) \<and>
   (semaphore_value s \<le> 0 \<longrightarrow> submit handoff_ok s = (SubmitBlocked, s)) \<and>
   (0 < semaphore_value s \<and> semaphore_value s \<le> semaphore_initial s \<and>
    (pool_shutdown s \<or> \<not> handoff_ok) \<longrightarrow>
      submit handoff_ok s = (SubmitRaised RuntimeError, s)) \<and>
   (0 < semaphore_value s \<and> \<not> pool_shutdown s \<and> handoff_ok \<longrightarrow>
      submit handoff_ok s =
        (SubmitReturned (next_future s),
         s\<lparr>futures := futures s @ [next_future s], next_future := Suc (next_future s),
           semaphore_value := semaphore_value s - 1\<rparr>)) \<and>
   (f \<in> set (futures s) \<and> semaphore_value s < semaphore_initial s \<longrightarrow>
      future_done f task_raised s =
        (None, s\<lparr>futures := removeAll f (futures s),
                 semaphore_value := semaphore_value s + 1\<rparr>) \<and>
      f \<notin> set (futures (snd (future_done f task_raised s)))) \<and>
   (f \<notin> set (futures s) \<longrightarrow> future_done f task_raised s = (None, s))"
proof (intro conjI)
  show "executor_init B W = Inr s0 \<longrightarrow>
      semaphore_initial s0 = W + B \<and> semaphore_value s0 = W + B \<and> futures s0 = [] \<and>
      0 \<le> semaphore_value (snd (executor_run evs s0)) \<and>
      semaphore_value (snd (executor_run evs s0)) +
        int (length (futures (snd (executor_run evs s0)))) = W + B \<and>
      int (length (futures (snd (executor_run evs s0)))) \<le> W + B \<and>
      Some ValueError \<notin> set (fst (executor_run evs s0))"
  proof (intro impI)
    assume "executor_init B W = Inr s0"
    then have s0: "s0 = \<lparr>max_workers = W, pool_shutdown = False, futures = [],
                next_future = 0, semaphore_initial = B + W, semaphore_value = B + W\<rparr>"
      and cap: "0 \<le> B + W"
      by (auto simp: executor_init_def split: if_splits)
    have i: "semaphore_initial s0 = W + B" "semaphore_value s0 = W + B" "futures s0 = []"
      by (simp_all add: s0)
    have "0 \<le> semaphore_value s0"
      and "semaphore_value s0 + int (length (futures s0)) = semaphore_initial s0"
      and "distinct (futures s0)" and "\<forall>f \<in> set (futures s0). f < next_future s0"
      using cap by (simp_all add: s0)
    from executor_run_invariant [OF this, of evs]
    have r: "0 \<le> semaphore_value (snd (executor_run evs s0))"
      "semaphore_value (snd (executor_run evs s0)) +
         int (length (futures (snd (executor_run evs s0)))) = W + B"
      "Some ValueError \<notin> set (fst (executor_run evs s0))"
      using i(1) by simp_all
    have "int (length (futures (snd (executor_run evs s0)))) \<le> W + B"
      using r(1,2) by linarith
    then show "semaphore_initial s0 = W + B \<and> semaphore_value s0 = W + B \<and>
      futures s0 = [] \<and>
      0 \<le> semaphore_value (snd (executor_run evs s0)) \<and>
      semaphore_value (snd (executor_run evs s0)) +
        int (length (futures (snd (executor_run evs s0)))) = W + B \<and>
      int (length (futures (snd (executor_run evs s0)))) \<le> W + B \<and>
      Some ValueError \<notin> set (fst (executor_run evs s0))"
      using i r by (intro conjI)
  qed
next
  show "semaphore_value s \<le> 0 \<longrightarrow> submit handoff_ok s = (SubmitBlocked, s)"
    by (simp add: submit_blocked)
next
  show "0 < semaphore_value s \<and> semaphore_value s \<le> semaphore_initial s \<and>
    (pool_shutdown s \<or> \<not> handoff_ok) \<longrightarrow>
      submit handoff_ok s = (SubmitRaised RuntimeError, s)"
    using submit_handoff_fails [of s handoff_ok] by blast
next
  show "0 < semaphore_value s \<and> \<not> pool_shutdown s \<and> handoff_ok \<longrightarrow>
      submit handoff_ok s =
        (SubmitReturned (next_future s),
         s\<lparr>futures := futures s @ [next_future s], next_future := Suc (next_future s),
           semaphore_value := semaphore_value s - 1\<rparr>)"
    using submit_handoff_succeeds [of s handoff_ok] by blast
next
  show "f \<in> set (futures s) \<and> semaphore_value s < semaphore_initial s \<longrightarrow>
      future_done f task_raised s =
        (None, s\<lparr>futures := removeAll f (futures s),
                 semaphore_value := semaphore_value s + 1\<rparr>) \<and>
      f \<notin> set (futures (snd (future_done f task_raised s)))"
    by (simp add: future_done_releases)
next
  show "f \<notin> set (futures s) \<longrightarrow> future_done f task_raised s = (None, s)"
    by (simp add: future_done_unknown)
qed

theorem bounded_executor_permits_witness:
  "executor_init 1 1 =
     Inr \<lparr>max_workers = 1, pool_shutdown = False, futures = [], next_future = 0,
          semaphore_initial = 2, semaphore_value = 2\<rparr> \<and>
   executor_run
     [Submit True, Submit True, Submit True, FutureDone 0 False, Submit False,
      Shutdown True, Submit True, FutureDone 1 True, FutureDone 1 True]
     \<lparr>max_workers = 1, pool_shutdown = False, futures = [], next_future = 0,
      semaphore_initial = 2, semaphore_value = 2\<rparr> =
     ([None, None, None, None, Some RuntimeError, None, Some RuntimeError, None, None],
      \<lparr>max_workers = 1, pool_shutdown = True, futures = [], next_future = 2,
       semaphore_initial = 2, semaphore_value = 2\<rparr>) \<and>
   submit True \<lparr>max_workers = 1, pool_shutdown = False, futures = [0, 1], next_future = 2,
      semaphore_initial = 2, semaphore_value = 0\<rparr> =
     (SubmitBlocked, \<lparr>max_workers = 1, pool_shutdown = False, futures = [0, 1],
      next_future = 2, semaphore_initial = 2, semaphore_value = 0\<rparr>) \<and>
   future_done 1 False \<lparr>max_workers = 1, pool_shutdown = False, futures = [1],
      next_future = 2, semaphore_initial = 2, semaphore_value = 1\<rparr> =
     (None, \<lparr>max_workers = 1, pool_shutdown = False, futures = [],
      next_future = 2, semaphore_initial = 2, semaphore_value = 2\<rparr>)"
proof -
  let ?s0 = "\<lparr>max_workers = 1, pool_shutdown = False, futures = [], next_future = 0,
          semaphore_initial = 2, semaphore_value = 2\<rparr>"
  let ?full = "\<lparr>max_workers = 1, pool_shutdown = False, futures = [0, 1], next_future = 2,
      semaphore_initial = 2, semaphore_value = 0\<rparr>"
  let ?one = "\<lparr>max_workers = 1, pool_shutdown = False, futures = [1],
      next_future = 2, semaphore_initial = 2, semaphore_value = 1\<rparr>"
  let ?evs = "[Submit True, Submit True, Submit True, FutureDone 0 False, Submit False,
      Shutdown True, Submit True, FutureDone 1 True, FutureDone 1 True]"
  have init: "executor_init 1 1 = Inr ?s0"
    by (simp add: executor_init_def)
  have run: "executor_run ?evs ?s0 =
     ([None, None, None, None, Some RuntimeError, None, Some RuntimeError, None, None],
      \<lparr>max_workers = 1, pool_shutdown = True, futures = [], next_future = 2,
       semaphore_initial = 2, semaphore_value = 2\<rparr>)"
    by (simp add: submit_def acquire_def release_def future_done_def shutdown_def)
  note all = bounded_executor_permits [where B = 1 and W = 1 and ?s0.0 = ?s0
      and evs = ?evs and s = ?full and handoff_ok = True and f = 1 and task_raised = False]
  have blocked: "submit True ?full = (SubmitBlocked, ?full)"
    using all [THEN conjunct2, THEN conjunct1] by simp
  have bound: "int (length (futures (snd (executor_run ?evs ?s0)))) \<le> 1 + 1"
    using all [THEN conjunct1, THEN mp, OF init] by (elim conjE)
  have handed_back: "future_done 1 False ?one =
     (None, \<lparr>max_workers = 1, pool_shutdown = False, futures = [],
      next_future = 2, semaphore_initial = 2, semaphore_value = 2\<rparr>)"
    using bounded_executor_permits [where s = ?one and f = 1 and task_raised = False,
        THEN conjunct2, THEN conjunct2, THEN conjunct2, THEN conjunct2, THEN conjunct1]
    by simp
  show ?thesis
    using init run blocked handed_back by (intro conjI)
qed

subsection \<open>MultiprocessingThreadingWorkQueue: \_distribute\_work\<close>












subsection \<open>MultiprocessingThreadingWorkQueue: run\<close>



lemma float_limit_positive: "0 < float_limit"
proof -
  have "(2 :: int) ^ 970 < 2 ^ 1024"
    by (rule power_strict_increasing) simp_all
  then show ?thesis
    by (simp add: float_limit_def)
qed

lemma py_float_errors: "py_float x = Inl e \<Longrightarrow> e = OverflowError"
  by (cases x) (simp_all add: py_float_def split: if_splits)











text \<open>
  A run outside the amended statement: the breaker is constructed at time 0, a child
  trips it, and every child has been joined by time 0.05.  The poll after the joins
  answers from the cache written at construction, and \<open>run\<close> returns normally.
\<close>

lemma run_short_run_example:
  "run queue_refuses_beyond_int (work_queue_init 1 2 8 (IntNum 10)) 0 [''worker failed'']
       (1 / 20) (1 / 20) =
     ([Started AcquisitionProcess, Started (WorkProcess 0),
       Joined AcquisitionProcess, Joined (WorkProcess 0)], Returned)"
proof -
  have small: "\<not> float_limit \<le> 10" "\<not> float_limit \<le> 1"
    by (simp_all add: float_limit_def)
  show ?thesis
    using small
    by (simp add: run_def work_queue_init_def Let_def is_tripped_def trip_elsewhere_def
        trip_def put_nowait_def breaker_init_def process_rate_def py_float_def
        queue_refuses_beyond_int_def feed_def)
qed
subsection \<open>MultiprocessingThreadingWorkQueue: cleanup in the worker processes\<close>

lemma trip_and_reraise_result:
  "\<exists>b'. trip_and_reraise why e b = ([LogException, TripCalled why], Some e, b')"
  using trip_returns [of why b] by (auto simp: trip_and_reraise_def)

lemma count_guarded:
  assumes "ev \<noteq> LogException"
  shows "count_list (guarded ev outcome) ev = 1"
    and "set (guarded ev outcome) \<subseteq> {ev, LogException}"
  using assms by (cases outcome, simp_all add: guarded_def)+

lemma acquisition_body_events:
  "set (fst (acquisition_body on_setup acquired)) \<subseteq>
     {Hook OnAcquisitionProcessSetup, Hook AcquireWork, DoneSet}"
  "snd (acquisition_body on_setup acquired) =
     (case on_setup of Some e \<Rightarrow> Some e | None \<Rightarrow> acquired)"
  by (auto simp: acquisition_body_def split: option.splits)

lemma acquisition_process_entry_shape:
  "\<exists>pre b'.
     Hook OnAcquisitionProcessComplete \<notin> set pre \<and>
     (\<forall>completed.
        acquisition_process_entry on_setup acquired completed b =
          (pre @ guarded (Hook OnAcquisitionProcessComplete) completed,
           (case (case on_setup of Some e \<Rightarrow> Some e | None \<Rightarrow> acquired) of
              None \<Rightarrow> None
            | Some e \<Rightarrow> if e = BreakerTrippingException then None else Some e),
           b'))"
proof -
  obtain tr raised where body: "acquisition_body on_setup acquired = (tr, raised)"
    by (cases "acquisition_body on_setup acquired")
  have tr: "Hook OnAcquisitionProcessComplete \<notin> set tr"
    using acquisition_body_events(1) [of on_setup acquired] body by auto
  have raised: "(case on_setup of Some e \<Rightarrow> Some e | None \<Rightarrow> acquired) = raised"
    using acquisition_body_events(2) [of on_setup acquired] body by simp
  let ?why = "''_acquisition_process_entry(): Tripping breaker due to exception and re-raising''"
  have "\<exists>pre b'.
     Hook OnAcquisitionProcessComplete \<notin> set pre \<and>
     (\<forall>completed.
        acquisition_process_entry on_setup acquired completed b =
          (pre @ guarded (Hook OnAcquisitionProcessComplete) completed,
           (case raised of
              None \<Rightarrow> None
            | Some e \<Rightarrow> if e = BreakerTrippingException then None else Some e),
           b'))"
  proof (cases raised)
    case None
    have "\<forall>completed. acquisition_process_entry on_setup acquired completed b =
          (tr @ guarded (Hook OnAcquisitionProcessComplete) completed,
           (case raised of
              None \<Rightarrow> None
            | Some e \<Rightarrow> if e = BreakerTrippingException then None else Some e), b)"
      using body None by (simp add: acquisition_process_entry_def)
    with tr show ?thesis by blast
  next
    case (Some e)
    show ?thesis
    proof (cases "e = BreakerTrippingException")
      case True
      have "\<forall>completed. acquisition_process_entry on_setup acquired completed b =
          ((tr @ [LogError]) @ guarded (Hook OnAcquisitionProcessComplete) completed,
           (case raised of
              None \<Rightarrow> None
            | Some e \<Rightarrow> if e = BreakerTrippingException then None else Some e), b)"
        using body Some True by (simp add: acquisition_process_entry_def)
      moreover have "Hook OnAcquisitionProcessComplete \<notin> set (tr @ [LogError])"
        using tr by simp
      ultimately show ?thesis by blast
    next
      case False
      obtain b' where t: "trip_and_reraise ?why e b = ([LogException, TripCalled ?why], Some e, b')"
        using trip_and_reraise_result by blast
      have "\<forall>completed. acquisition_process_entry on_setup acquired completed b =
          ((tr @ [LogException, TripCalled ?why]) @
             guarded (Hook OnAcquisitionProcessComplete) completed,
           (case raised of
              None \<Rightarrow> None
            | Some e \<Rightarrow> if e = BreakerTrippingException then None else Some e), b')"
        using body Some False t by (simp add: acquisition_process_entry_def)
      moreover have "Hook OnAcquisitionProcessComplete \<notin> set (tr @ [LogException, TripCalled ?why])"
        using tr by simp
      ultimately show ?thesis by blast
    qed
  qed
  then show ?thesis
    unfolding raised .
qed

lemma work_loop_events:
  "work_loop ps b = Some (tr, x, b') \<Longrightarrow>
     set tr \<subseteq> {LogError, LogDebug, QueueGet, ExecutorSubmit}"
proof (induction ps arbitrary: b tr x b')
  case Nil
  then show ?case by simp
next
  case (Cons p ps)
  let ?b1 = "snd (is_tripped None (wp_now p) (wp_now' p)
      (case wp_tripped_elsewhere p of None \<Rightarrow> b | Some r \<Rightarrow> trip_elsewhere r b))"
  have gs: "set (fst (get_and_submit p)) \<subseteq> {QueueGet, ExecutorSubmit}"
    by (auto simp: get_and_submit_def split: option.splits)
  have again: "set tr \<subseteq> {LogError, LogDebug, QueueGet, ExecutorSubmit}"
    if "map_option (\<lambda>(tr', x, b'). (fst (get_and_submit p) @ tr', x, b')) (work_loop ps ?b1) =
        Some (tr, x, b')"
  proof -
    from that obtain tr' where "work_loop ps ?b1 = Some (tr', x, b')"
      and "tr = fst (get_and_submit p) @ tr'"
      by (cases "work_loop ps ?b1") auto
    then show ?thesis
      using Cons.IH [of ?b1 tr' x b'] gs by auto
  qed
  show ?case
    using Cons.prems gs again
    by (cases "get_and_submit p")
      (auto simp: Let_def split: if_splits option.splits)
qed

lemma work_body_events:
  assumes "work_body c on_setup passes b = Some (tr, raised, assigned, b1)"
  shows "Hook OnWorkProcessComplete \<notin> set tr \<and> ExecutorShutdown \<notin> set tr \<and>
     assigned = (on_setup = None \<and> number_value (rate c) \<noteq> 0 \<and> work_processes c \<noteq> 0 \<and>
                 0 < max_threads_per_work_process c)"
proof (cases "on_setup = None \<and> number_value (rate c) \<noteq> 0 \<and> work_processes c \<noteq> 0 \<and>
                 0 < max_threads_per_work_process c")
  case True
  then obtain l ex where
    "limiter_init (number_value (rate c) / real_of_int (work_processes c)) 5 = Inr l"
    "executor_init (max_threads_per_work_process c) (max_threads_per_work_process c) = Inr ex"
    by (simp add: limiter_init_def executor_init_def)
  with True assms obtain tr' where "work_loop passes b = Some (tr', raised, b1)"
    and "tr = Hook OnWorkProcessSetup # tr'" and "assigned"
    by (cases "work_loop passes b") (auto simp: work_body_def)
  then show ?thesis
    using True work_loop_events [of passes b tr' raised b1] by auto
next
  case False
  then have "tr = [Hook OnWorkProcessSetup] \<and> \<not> assigned"
    using assms
    by (auto simp: work_body_def limiter_init_def executor_init_def
        split: option.splits if_splits)
  then show ?thesis
    using False by simp
qed

lemma work_process_entry_shape:
  assumes "work_process_entry c on_setup passes shutdown_outcome completed b = Some (tr, x, b')"
  shows "\<exists>pre.
     Hook OnWorkProcessComplete \<notin> set pre \<and> ExecutorShutdown \<notin> set pre \<and>
     (\<forall>sh co.
        work_process_entry c on_setup passes sh co b =
          Some (pre @
                (if on_setup = None \<and> number_value (rate c) \<noteq> 0 \<and> work_processes c \<noteq> 0 \<and>
                    0 < max_threads_per_work_process c
                 then LogDebug # guarded ExecutorShutdown sh else []) @
                LogDebug # guarded (Hook OnWorkProcessComplete) co,
                x, b'))"
proof -
  from assms obtain tr0 raised assigned b1 where
    body: "work_body c on_setup passes b = Some (tr0, raised, assigned, b1)"
    by (cases "work_body c on_setup passes b") (auto simp: work_process_entry_def)
  note ev = work_body_events [OF body]
  let ?why = "''_work_process_entry(): Caught exception.  Tripping breaker and re-raising.''"
  show ?thesis
  proof (cases raised)
    case None
    have "\<forall>sh co. work_process_entry c on_setup passes sh co b =
          Some (tr0 @
                (if assigned then LogDebug # guarded ExecutorShutdown sh else []) @
                LogDebug # guarded (Hook OnWorkProcessComplete) co, None, b1)"
      using body None by (simp add: work_process_entry_def)
    moreover from this assms have "x = None" "b' = b1"
      by simp_all
    ultimately show ?thesis
      using ev by (intro exI [of _ tr0]) simp
  next
    case (Some e)
    obtain b2 where t: "trip_and_reraise ?why e b1 = ([LogException, TripCalled ?why], Some e, b2)"
      using trip_and_reraise_result by blast
    have "\<forall>sh co. work_process_entry c on_setup passes sh co b =
          Some ((tr0 @ [LogException, TripCalled ?why]) @
                (if assigned then LogDebug # guarded ExecutorShutdown sh else []) @
                LogDebug # guarded (Hook OnWorkProcessComplete) co, Some e, b2)"
      using body Some t by (simp add: work_process_entry_def)
    moreover from this assms have "x = Some e" "b' = b2"
      by simp_all
    ultimately show ?thesis
      using ev by (intro exI [of _ "tr0 @ [LogException, TripCalled ?why]"]) simp
  qed
qed

lemma guarded_events:
  "guarded ev outcome = guarded ev None @ (case outcome of None \<Rightarrow> [] | Some e \<Rightarrow> [LogException])"
  "Hook h \<in> set (guarded (Hook h) outcome)"
  "ExecutorShutdown \<notin> set (guarded (Hook h) outcome)"
  "Hook h \<notin> set (guarded ExecutorShutdown outcome)"
  by (cases outcome; simp add: guarded_def)+

lemma acquisition_cleanup:
  "count_list (fst (acquisition_process_entry on_setup acquired completed b))
     (Hook OnAcquisitionProcessComplete) = 1 \<and>
   fst (acquisition_process_entry on_setup acquired completed b) =
     fst (acquisition_process_entry on_setup acquired None b) @
       (case completed of None \<Rightarrow> [] | Some e \<Rightarrow> [LogException]) \<and>
   snd (acquisition_process_entry on_setup acquired completed b) =
     snd (acquisition_process_entry on_setup acquired None b) \<and>
   fst (snd (acquisition_process_entry on_setup acquired completed b)) =
     (case (case on_setup of Some e \<Rightarrow> Some e | None \<Rightarrow> acquired) of
        None \<Rightarrow> None
      | Some e \<Rightarrow> if e = BreakerTrippingException then None else Some e)"
proof -
  from acquisition_process_entry_shape [of on_setup acquired b]
  obtain pre b' where pre: "Hook OnAcquisitionProcessComplete \<notin> set pre"
    and eq: "\<And>completed. acquisition_process_entry on_setup acquired completed b =
          (pre @ guarded (Hook OnAcquisitionProcessComplete) completed,
           (case (case on_setup of Some e \<Rightarrow> Some e | None \<Rightarrow> acquired) of
              None \<Rightarrow> None
            | Some e \<Rightarrow> if e = BreakerTrippingException then None else Some e),
           b')"
    by blast
  have c: "count_list (pre @ guarded (Hook OnAcquisitionProcessComplete) completed)
      (Hook OnAcquisitionProcessComplete) = 1"
    using pre count_guarded(1) [of "Hook OnAcquisitionProcessComplete" completed] by simp
  have g: "pre @ guarded (Hook OnAcquisitionProcessComplete) completed =
      (pre @ guarded (Hook OnAcquisitionProcessComplete) None) @
        (case completed of None \<Rightarrow> [] | Some e \<Rightarrow> [LogException])"
    using guarded_events(1) [of "Hook OnAcquisitionProcessComplete" completed] by simp
  show ?thesis
    unfolding eq [of completed] eq [of None] fst_conv snd_conv
    using c g by (intro conjI refl)
qed

lemma work_cleanup:
  assumes "work_process_entry c on_setup passes shutdown_outcome completed b = Some (tr, x, b')"
  shows "count_list tr (Hook OnWorkProcessComplete) = 1 \<and>
     count_list tr ExecutorShutdown =
       (if on_setup = None \<and> number_value (rate c) \<noteq> 0 \<and> work_processes c \<noteq> 0 \<and>
           0 < max_threads_per_work_process c then 1 else 0) \<and>
     (on_setup = None \<and> number_value (rate c) \<noteq> 0 \<and> work_processes c \<noteq> 0 \<and>
      0 < max_threads_per_work_process c \<longrightarrow>
        (\<exists>pre post. tr = pre @ ExecutorShutdown # post \<and>
           ExecutorShutdown \<notin> set pre \<and> Hook OnWorkProcessComplete \<notin> set pre \<and>
           Hook OnWorkProcessComplete \<in> set post)) \<and>
     (\<forall>sh co. \<exists>tr'. work_process_entry c on_setup passes sh co b = Some (tr', x, b')) \<and>
     (\<exists>tr0. work_process_entry c on_setup passes shutdown_outcome None b = Some (tr0, x, b') \<and>
        tr = tr0 @ (case completed of None \<Rightarrow> [] | Some e \<Rightarrow> [LogException]))"
proof -
  let ?built = "on_setup = None \<and> number_value (rate c) \<noteq> 0 \<and> work_processes c \<noteq> 0 \<and>
      0 < max_threads_per_work_process c"
  from work_process_entry_shape [OF assms]
  obtain pre where pre: "Hook OnWorkProcessComplete \<notin> set pre" "ExecutorShutdown \<notin> set pre"
    and eq: "\<And>sh co. work_process_entry c on_setup passes sh co b =
          Some (pre @
                (if ?built then LogDebug # guarded ExecutorShutdown sh else []) @
                LogDebug # guarded (Hook OnWorkProcessComplete) co,
                x, b')"
    by blast
  let ?sd = "if ?built then LogDebug # guarded ExecutorShutdown shutdown_outcome else []"
  have tr: "tr = pre @ ?sd @ LogDebug # guarded (Hook OnWorkProcessComplete) completed"
    using eq [of shutdown_outcome completed] assms by simp
  have sd_hook: "Hook OnWorkProcessComplete \<notin> set ?sd"
    using guarded_events(4) [of OnWorkProcessComplete shutdown_outcome] by simp
  have sd_count: "count_list ?sd ExecutorShutdown = (if ?built then 1 else 0)"
    using count_guarded(1) [of ExecutorShutdown shutdown_outcome] by simp
  have hook_count: "count_list (guarded (Hook OnWorkProcessComplete) completed)
      (Hook OnWorkProcessComplete) = 1"
    using count_guarded(1) [of "Hook OnWorkProcessComplete" completed] by simp
  have hook_sd: "ExecutorShutdown \<notin> set (guarded (Hook OnWorkProcessComplete) completed)"
    using guarded_events(3) by simp
  have c1: "count_list tr (Hook OnWorkProcessComplete) = 1"
    unfolding tr using pre(1) sd_hook hook_count by simp
  have c2: "count_list tr ExecutorShutdown = (if ?built then 1 else 0)"
    unfolding tr using pre(2) sd_count hook_sd by simp
  have order: "\<exists>p post. tr = p @ ExecutorShutdown # post \<and>
           ExecutorShutdown \<notin> set p \<and> Hook OnWorkProcessComplete \<notin> set p \<and>
           Hook OnWorkProcessComplete \<in> set post" if built: ?built
  proof (cases shutdown_outcome)
    case None
    have "tr = (pre @ [LogDebug]) @ ExecutorShutdown #
        (LogDebug # guarded (Hook OnWorkProcessComplete) completed)"
      unfolding tr using built None by (simp add: guarded_def)
    moreover have "ExecutorShutdown \<notin> set (pre @ [LogDebug])"
      "Hook OnWorkProcessComplete \<notin> set (pre @ [LogDebug])"
      using pre by simp_all
    moreover have "Hook OnWorkProcessComplete \<in>
        set (LogDebug # guarded (Hook OnWorkProcessComplete) completed)"
      using guarded_events(2) [of OnWorkProcessComplete completed] by simp
    ultimately show ?thesis by blast
  next
    case (Some e)
    have "tr = (pre @ [LogDebug]) @ ExecutorShutdown #
        (LogException # LogDebug # guarded (Hook OnWorkProcessComplete) completed)"
      unfolding tr using built Some by (simp add: guarded_def)
    moreover have "ExecutorShutdown \<notin> set (pre @ [LogDebug])"
      "Hook OnWorkProcessComplete \<notin> set (pre @ [LogDebug])"
      using pre by simp_all
    moreover have "Hook OnWorkProcessComplete \<in>
        set (LogException # LogDebug # guarded (Hook OnWorkProcessComplete) completed)"
      using guarded_events(2) [of OnWorkProcessComplete completed] by simp
    ultimately show ?thesis by blast
  qed
  have any: "\<forall>sh co. \<exists>tr'. work_process_entry c on_setup passes sh co b = Some (tr', x, b')"
    using eq by blast
  have split: "tr = (pre @ ?sd @ LogDebug # guarded (Hook OnWorkProcessComplete) None) @
      (case completed of None \<Rightarrow> [] | Some e \<Rightarrow> [LogException])"
    unfolding tr using guarded_events(1) [of "Hook OnWorkProcessComplete" completed] by simp
  have none: "\<exists>tr0. work_process_entry c on_setup passes shutdown_outcome None b =
        Some (tr0, x, b') \<and>
        tr = tr0 @ (case completed of None \<Rightarrow> [] | Some e \<Rightarrow> [LogException])"
    using eq [of shutdown_outcome None] split by blast
  show ?thesis
    using c1 c2 order any none by (intro conjI impI)
qed

text \<open>
  C9 (as amended).  Whatever the hooks do (return, raise
  \<open>BreakerTrippingException\<close>, raise anything else, be interrupted), the acquisition
  body calls \<open>_on_acquisition_process_complete\<close> exactly once; an exception from that
  call adds a log entry and nothing else, and the exception that leaves the body (none
  after a clean return or \<open>BreakerTrippingException\<close>, otherwise the one raised by
  setup or acquire) and the breaker are the same as when the call returns.  Whenever
  the work body exits (its loop left by a tripped breaker, by the done flag on a
  timeout, or by an exception), it has called \<open>_on_work_process_complete\<close> exactly
  once; exceptions from the shutdown and from that call are logged and change neither
  the exception leaving the body nor the breaker.  The executor is shut down, once and
  before \<open>_on_work_process_complete\<close>, exactly when it had been constructed, that is
  when setup returned and limiter and executor were built (rate and process count not
  zero, thread count positive); when the body fails before that, there is no executor
  and no shutdown.
\<close>

theorem worker_cleanup_runs_once:
  "count_list (fst (acquisition_process_entry on_setup acquired completed b))
     (Hook OnAcquisitionProcessComplete) = 1 \<and>
   fst (acquisition_process_entry on_setup acquired completed b) =
     fst (acquisition_process_entry on_setup acquired None b) @
       (case completed of None \<Rightarrow> [] | Some e \<Rightarrow> [LogException]) \<and>
   snd (acquisition_process_entry on_setup acquired completed b) =
     snd (acquisition_process_entry on_setup acquired None b) \<and>
   fst (snd (acquisition_process_entry on_setup acquired completed b)) =
     (case (case on_setup of Some e \<Rightarrow> Some e | None \<Rightarrow> acquired) of
        None \<Rightarrow> None
      | Some e \<Rightarrow> if e = BreakerTrippingException then None else Some e) \<and>
   (\<forall>tr x b'.
      work_process_entry c on_setup passes shutdown_outcome completed b = Some (tr, x, b') \<longrightarrow>
        count_list tr (Hook OnWorkProcessComplete) = 1 \<and>
        count_list tr ExecutorShutdown =
          (if on_setup = None \<and> number_value (rate c) \<noteq> 0 \<and> work_processes c \<noteq> 0 \<and>
              0 < max_threads_per_work_process c then 1 else 0) \<and>
        (on_setup = None \<and> number_value (rate c) \<noteq> 0 \<and> work_processes c \<noteq> 0 \<and>
         0 < max_threads_per_work_process c \<longrightarrow>
           (\<exists>pre post. tr = pre @ ExecutorShutdown # post \<and>
              ExecutorShutdown \<notin> set pre \<and> Hook OnWorkProcessComplete \<notin> set pre \<and>
              Hook OnWorkProcessComplete \<in> set post)) \<and>
        (\<forall>sh co. \<exists>tr'. work_process_entry c on_setup passes sh co b = Some (tr', x, b')) \<and>
        (\<exists>tr0. work_process_entry c on_setup passes shutdown_outcome None b =
                 Some (tr0, x, b') \<and>
           tr = tr0 @ (case completed of None \<Rightarrow> [] | Some e \<Rightarrow> [LogException])))"
proof -
  have w: "\<forall>tr x b'.
      work_process_entry c on_setup passes shutdown_outcome completed b = Some (tr, x, b') \<longrightarrow>
        count_list tr (Hook OnWorkProcessComplete) = 1 \<and>
        count_list tr ExecutorShutdown =
          (if on_setup = None \<and> number_value (rate c) \<noteq> 0 \<and> work_processes c \<noteq> 0 \<and>
              0 < max_threads_per_work_process c then 1 else 0) \<and>
        (on_setup = None \<and> number_value (rate c) \<noteq> 0 \<and> work_processes c \<noteq> 0 \<and>
         0 < max_threads_per_work_process c \<longrightarrow>
           (\<exists>pre post. tr = pre @ ExecutorShutdown # post \<and>
              ExecutorShutdown \<notin> set pre \<and> Hook OnWorkProcessComplete \<notin> set pre \<and>
              Hook OnWorkProcessComplete \<in> set post)) \<and>
        (\<forall>sh co. \<exists>tr'. work_process_entry c on_setup passes sh co b = Some (tr', x, b')) \<and>
        (\<exists>tr0. work_process_entry c on_setup passes shutdown_outcome None b =
                 Some (tr0, x, b') \<and>
           tr = tr0 @ (case completed of None \<Rightarrow> [] | Some e \<Rightarrow> [LogException]))"
    using work_cleanup [of c on_setup passes shutdown_outcome completed b]
    by (intro allI impI)
  note a = acquisition_cleanup [of on_setup acquired completed b]
  show ?thesis
    using a [THEN conjunct1] a [THEN conjunct2, THEN conjunct1]
      a [THEN conjunct2, THEN conjunct2, THEN conjunct1]
      a [THEN conjunct2, THEN conjunct2, THEN conjunct2] w
    by (intro conjI)
qed

text \<open>
  Three exits evaluated.  An acquisition process interrupted inside \<open>_acquire_work\<close>
  whose cleanup hook raises too; a work process that drains (one pass: not tripped,
  timeout, done flag set) and whose shutdown raises; a work process whose setup hook
  raises.
\<close>

lemma acquisition_interrupted_example:
  "acquisition_process_entry None (Some KeyboardInterrupt) (Some (UserException ''close failed''))
     (breaker_init (1 / 10) 0) =
     ([Hook OnAcquisitionProcessSetup, Hook AcquireWork, LogException,
       TripCalled ''_acquisition_process_entry(): Tripping breaker due to exception and re-raising'',
       Hook OnAcquisitionProcessComplete, LogException],
      Some KeyboardInterrupt,
      \<lparr>cached = True, checked = 0, granularity = 1 / 10, event = True,
       reason = Buffered ''_acquisition_process_entry(): Tripping breaker due to exception and re-raising''\<rparr>)"
  by (simp add: acquisition_process_entry_def acquisition_body_def trip_and_reraise_def
      guarded_def trip_def put_nowait_def breaker_init_def)

lemma work_drained_example:
  "work_process_entry (work_queue_init 1 2 8 (IntNum 10)) None
     [\<lparr>wp_tripped_elsewhere = None, wp_now = 1, wp_now' = 1, wp_get = Some QueueEmpty,
       wp_done = True, wp_submit = None\<rparr>]
     (Some RuntimeError) None (breaker_init (1 / 10) 0) =
     Some ([Hook OnWorkProcessSetup, QueueGet, LogDebug, LogDebug, ExecutorShutdown,
            LogException, LogDebug, Hook OnWorkProcessComplete],
           None,
           \<lparr>cached = False, checked = 1, granularity = 1 / 10, event = False,
            reason = Free\<rparr>)"
  by (simp add: work_process_entry_def work_body_def work_queue_init_def number_value_def
      limiter_init_def executor_init_def get_and_submit_def is_tripped_def Let_def guarded_def
      breaker_init_def)

lemma work_setup_fails_example:
  "work_process_entry (work_queue_init 1 2 8 (IntNum 10))
     (Some (UserException ''no database'')) [] None None (breaker_init (1 / 10) 0) =
     Some ([Hook OnWorkProcessSetup, LogException,
            TripCalled ''_work_process_entry(): Caught exception.  Tripping breaker and re-raising.'',
            LogDebug, Hook OnWorkProcessComplete],
           Some (UserException ''no database''),
           \<lparr>cached = True, checked = 0, granularity = 1 / 10, event = True,
            reason = Buffered ''_work_process_entry(): Caught exception.  Tripping breaker and re-raising.''\<rparr>)"
  by (simp add: work_process_entry_def work_body_def trip_and_reraise_def guarded_def
      trip_def put_nowait_def breaker_init_def)

theorem worker_cleanup_runs_once_witness:
  "count_list
     (fst (acquisition_process_entry None (Some KeyboardInterrupt)
        (Some (UserException ''close failed'')) (breaker_init (1 / 10) 0)))
     (Hook OnAcquisitionProcessComplete) = 1 \<and>
   fst (snd (acquisition_process_entry None (Some KeyboardInterrupt)
        (Some (UserException ''close failed'')) (breaker_init (1 / 10) 0))) =
     Some KeyboardInterrupt \<and>
   count_list
     [Hook OnWorkProcessSetup, QueueGet, LogDebug, LogDebug, ExecutorShutdown,
      LogException, LogDebug, Hook OnWorkProcessComplete] ExecutorShutdown = 1 \<and>
   count_list
     [Hook OnWorkProcessSetup, QueueGet, LogDebug, LogDebug, ExecutorShutdown,
      LogException, LogDebug, Hook OnWorkProcessComplete] (Hook OnWorkProcessComplete) = 1 \<and>
   work_process_entry (work_queue_init 1 2 8 (IntNum 10)) None
     [\<lparr>wp_tripped_elsewhere = None, wp_now = 1, wp_now' = 1, wp_get = Some QueueEmpty,
       wp_done = True, wp_submit = None\<rparr>]
     (Some RuntimeError) None (breaker_init (1 / 10) 0) =
     Some ([Hook OnWorkProcessSetup, QueueGet, LogDebug, LogDebug, ExecutorShutdown,
            LogException, LogDebug, Hook OnWorkProcessComplete],
           None,
           \<lparr>cached = False, checked = 1, granularity = 1 / 10, event = False,
            reason = Free\<rparr>)"
proof -
  let ?pass = "\<lparr>wp_tripped_elsewhere = None, wp_now = 1, wp_now' = 1,
       wp_get = Some QueueEmpty, wp_done = True, wp_submit = None\<rparr> :: string work_pass"
  let ?tr = "[Hook OnWorkProcessSetup, QueueGet, LogDebug, LogDebug, ExecutorShutdown,
            LogException, LogDebug, Hook OnWorkProcessComplete]"
  note all = worker_cleanup_runs_once [of None "Some KeyboardInterrupt"
      "Some (UserException ''close failed'')" "breaker_init (1 / 10) 0"
      "work_queue_init 1 2 8 (IntNum 10)" "[?pass]" "Some RuntimeError"]
  have a1: "count_list
     (fst (acquisition_process_entry None (Some KeyboardInterrupt)
        (Some (UserException ''close failed'')) (breaker_init (1 / 10) 0)))
     (Hook OnAcquisitionProcessComplete) = 1"
    using all [THEN conjunct1] .
  have a2: "fst (snd (acquisition_process_entry None (Some KeyboardInterrupt)
        (Some (UserException ''close failed'')) (breaker_init (1 / 10) 0))) =
     Some KeyboardInterrupt"
    using all [THEN conjunct2, THEN conjunct2, THEN conjunct2, THEN conjunct1] by simp
  note work = worker_cleanup_runs_once [of None None None "breaker_init (1 / 10) 0"
      "work_queue_init 1 2 8 (IntNum 10)" "[?pass]" "Some RuntimeError",
      THEN conjunct2, THEN conjunct2, THEN conjunct2, THEN conjunct2, rule_format,
      OF work_drained_example]
  have w1: "count_list ?tr (Hook OnWorkProcessComplete) = 1"
    using work [THEN conjunct1] .
  have w2: "count_list ?tr ExecutorShutdown = 1"
    using work [THEN conjunct2, THEN conjunct1]
    by (simp add: work_queue_init_def number_value_def)
  show ?thesis
    using a1 a2 w2 w1 work_drained_example by (intro conjI)
qed

text \<open>
  The claim as stated, that in work workers the cleanup hook is preceded by the
  executor shutdown on every exit path, fails on the path where the setup hook raises:
  the executor was never constructed, \<open>if executor:\<close> skips the shutdown, and the hook
  is called with no shutdown before it.
\<close>

theorem worker_cleanup_no_shutdown_counterexample:
  "work_process_entry (work_queue_init 1 2 8 (IntNum 10))
     (Some (UserException ''no database'')) [] None None (breaker_init (1 / 10) 0) =
     Some ([Hook OnWorkProcessSetup, LogException,
            TripCalled ''_work_process_entry(): Caught exception.  Tripping breaker and re-raising.'',
            LogDebug, Hook OnWorkProcessComplete],
           Some (UserException ''no database''),
           \<lparr>cached = True, checked = 0, granularity = 1 / 10, event = True,
            reason = Buffered ''_work_process_entry(): Caught exception.  Tripping breaker and re-raising.''\<rparr>) \<and>
   ExecutorShutdown \<notin> set
     [Hook OnWorkProcessSetup, LogException,
      TripCalled ''_work_process_entry(): Caught exception.  Tripping breaker and re-raising.'',
      LogDebug, Hook OnWorkProcessComplete]"
  using work_setup_fails_example by simp

subsection \<open>ThreadingAccumulator: conservation and non-empty batches\<close>

lemma batches_append: "batches (es @ fs) = batches es @ batches fs"
  by (induction es rule: batches.induct) simp_all

lemma batches_process:
  "batches (process a p) = (case p of None \<Rightarrow> [] | Some l \<Rightarrow> if l = [] then [] else [l])"
  by (simp add: process_def split: option.split)

lemma batches_add:
  "batches (fst (add x a)) =
     (if int (length (acc_list a)) + 1 \<ge> acc_size a then [acc_list a @ [x]] else [])"
  by (simp add: add_def Let_def batches_process)

lemma acc_list_add:
  "acc_list (snd (add x a)) =
     (if int (length (acc_list a)) + 1 \<ge> acc_size a then [] else acc_list a @ [x])"
  by (simp add: add_def Let_def)

lemma batches_flush:
  "batches (fst (flush a)) = (if acc_list a = [] then [] else [acc_list a])"
  by (simp add: flush_def batches_process)

lemma acc_list_flush: "acc_list (snd (flush a)) = []"
  by (simp add: flush_def)

lemma add_all_conserves:
  "concat (batches (fst (add_all xs a))) @ acc_list (snd (add_all xs a)) = acc_list a @ xs"
proof (induction xs arbitrary: a)
  case Nil
  show ?case by simp
next
  case (Cons x xs)
  obtain e1 a1 where s1: "add x a = (e1, a1)" by (cases "add x a")
  obtain e2 a2 where s2: "add_all xs a1 = (e2, a2)" by (cases "add_all xs a1")
  have h1: "concat (batches e1) @ acc_list a1 = acc_list a @ [x]"
    using batches_add [of x a] acc_list_add [of x a] s1 by simp
  have h2: "concat (batches e2) @ acc_list a2 = acc_list a1 @ xs"
    using Cons.IH [of a1] s2 by simp
  have "concat (batches (e1 @ e2)) @ acc_list a2 = concat (batches e1) @ (acc_list a1 @ xs)"
    using h2 by (simp add: batches_append)
  also have "\<dots> = (acc_list a @ [x]) @ xs"
    using h1 by (metis append_assoc)
  finally show ?case using s1 s2 by simp
qed

lemma add_all_then_flush_delivers:
  "concat (batches (fst (add_all_then_flush xs a))) = acc_list a @ xs"
proof -
  obtain e1 a1 where s1: "add_all xs a = (e1, a1)" by (cases "add_all xs a")
  obtain e2 a2 where s2: "flush a1 = (e2, a2)" by (cases "flush a1")
  have h1: "concat (batches e1) @ acc_list a1 = acc_list a @ xs"
    using add_all_conserves [of xs a] s1 by simp
  have h2: "concat (batches e2) = acc_list a1"
    using batches_flush [of a1] s2 by simp
  show ?thesis
    using h1 h2 s1 s2 by (simp add: add_all_then_flush_def batches_append)
qed

lemma add_all_then_flush_empties: "acc_list (snd (add_all_then_flush xs a)) = []"
proof -
  obtain e1 a1 where s1: "add_all xs a = (e1, a1)" by (cases "add_all xs a")
  obtain e2 a2 where s2: "flush a1 = (e2, a2)" by (cases "flush a1")
  show ?thesis
    using acc_list_flush [of a1] s1 s2 by (simp add: add_all_then_flush_def)
qed

lemma acc_size_add: "acc_size (snd (add x a)) = acc_size a"
  by (simp add: add_def Let_def)

lemma add_all_full_batches:
  "int (length (acc_list a)) < acc_size a \<Longrightarrow>
     (\<forall>b \<in> set (batches (fst (add_all xs a))). int (length b) = acc_size a) \<and>
     int (length (acc_list (snd (add_all xs a)))) < acc_size a"
proof (induction xs arbitrary: a)
  case Nil
  then show ?case by simp
next
  case (Cons x xs)
  obtain e1 a1 where s1: "add x a = (e1, a1)" by (cases "add x a")
  obtain e2 a2 where s2: "add_all xs a1 = (e2, a2)" by (cases "add_all xs a1")
  have sz: "acc_size a1 = acc_size a"
    using acc_size_add [of x a] s1 by simp
  have b1: "\<forall>b \<in> set (batches e1). int (length b) = acc_size a"
    using batches_add [of x a] s1 Cons.prems by (auto split: if_splits)
  have inv1: "int (length (acc_list a1)) < acc_size a1"
    using acc_list_add [of x a] s1 sz Cons.prems by (auto split: if_splits)
  have "(\<forall>b \<in> set (batches e2). int (length b) = acc_size a) \<and>
        int (length (acc_list a2)) < acc_size a"
    using Cons.IH [OF inv1] s2 sz by simp
  with b1 show ?case
    using s1 s2 by (auto simp: batches_append)
qed

lemma add_all_nonempty_batches: "[] \<notin> set (batches (fst (add_all xs a)))"
proof (induction xs arbitrary: a)
  case Nil
  show ?case by simp
next
  case (Cons x xs)
  obtain e1 a1 where s1: "add x a = (e1, a1)" by (cases "add x a")
  obtain e2 a2 where s2: "add_all xs a1 = (e2, a2)" by (cases "add_all xs a1")
  have "[] \<notin> set (batches e1)"
    using batches_add [of x a] s1 by (simp split: if_splits)
  moreover have "[] \<notin> set (batches e2)"
    using Cons.IH [of a1] s2 by simp
  ultimately show ?case
    using s1 s2 by (simp add: batches_append)
qed

text \<open>
  C8.  Starting from any accumulator, a sequence of \<open>add\<close> calls followed by one \<open>flush\<close>
  hands \<open>_on_process\<close> batches whose concatenation is the buffered items followed by the
  added ones, so every added item sits at exactly one place of exactly one batch and, for
  a freshly constructed accumulator, the multiset delivered is the multiset added; the
  buffer is empty afterwards.  A single \<open>add\<close> dispatches exactly when the buffer, with
  the new item appended, has reached \<open>_size\<close>, and then the batch is that whole buffer
  and an empty buffer is swapped in; otherwise nothing is dispatched and the item stays
  buffered.  For a fresh accumulator with threshold \<open>S \<ge> 1\<close> every batch dispatched by
  \<open>add\<close> holds exactly \<open>S\<close> items.
\<close>

theorem accumulator_conservation:
  "mset (concat (batches (fst (add_all_then_flush xs (accumulator_init S ser))))) = mset xs \<and>
   concat (batches (fst (add_all_then_flush xs a))) = acc_list a @ xs \<and>
   acc_list (snd (add_all_then_flush xs a)) = [] \<and>
   batches (fst (add x a)) =
     (if int (length (acc_list a @ [x])) \<ge> acc_size a then [acc_list a @ [x]] else []) \<and>
   acc_list (snd (add x a)) =
     (if int (length (acc_list a @ [x])) \<ge> acc_size a then [] else acc_list a @ [x]) \<and>
   (1 \<le> S \<longrightarrow>
     (\<forall>b \<in> set (batches (fst (add_all xs (accumulator_init S ser)))). int (length b) = S))"
proof -
  have "concat (batches (fst (add_all_then_flush xs (accumulator_init S ser)))) = xs"
    using add_all_then_flush_delivers [of xs "accumulator_init S ser"]
    by (simp add: accumulator_init_def)
  moreover have "1 \<le> S \<longrightarrow>
     (\<forall>b \<in> set (batches (fst (add_all xs (accumulator_init S ser)))). int (length b) = S)"
    using add_all_full_batches [of "accumulator_init S ser" xs]
    by (simp add: accumulator_init_def)
  ultimately show ?thesis
    using add_all_then_flush_delivers [of xs a] add_all_then_flush_empties [of xs a]
      batches_add [of x a] acc_list_add [of x a]
    by simp
qed

theorem accumulator_conservation_witness:
  "mset (concat (batches (fst (add_all_then_flush [1, 2, 3, 4, 5 :: nat]
      (accumulator_init 2 True))))) = mset [1, 2, 3, 4, 5] \<and>
   batches (fst (add_all_then_flush [1, 2, 3, 4, 5 :: nat] (accumulator_init 2 True))) =
     [[1, 2], [3, 4], [5]] \<and>
   batches (fst (add (2 :: nat) \<lparr>acc_size = 2, acc_serial = True, acc_list = [1]\<rparr>)) = [[1, 2]] \<and>
   (1 :: int) \<le> 2 \<and>
   list_all (\<lambda>b. int (length b) = 2)
     (batches (fst (add_all [1, 2, 3, 4, 5 :: nat] (accumulator_init 2 True))))"
  using accumulator_conservation [of "[1, 2, 3, 4, 5 :: nat]" 2 True
      "\<lparr>acc_size = 2, acc_serial = True, acc_list = [1]\<rparr>" 2]
  by (simp add: add_all_then_flush_def add_def flush_def process_def accumulator_init_def)

text \<open>
  C10.  No batch handed to \<open>_on_process\<close> by \<open>add\<close>, by \<open>flush\<close>, or by any sequence of
  \<open>add\<close> calls followed by a \<open>flush\<close>, is empty.  On an empty buffer \<open>flush\<close> takes and
  releases the list lock and does nothing else: no \<open>_on_process\<close> call, the process lock
  is not taken, and the accumulator is unchanged.
\<close>

theorem accumulator_no_empty_batch:
  "[] \<notin> set (batches (fst (add x a))) \<and>
   [] \<notin> set (batches (fst (flush a))) \<and>
   [] \<notin> set (batches (fst (add_all_then_flush xs a))) \<and>
   (acc_list a = [] \<longrightarrow>
      flush a = ([AcquireListLock, ReleaseListLock], a) \<and>
      batches (fst (flush a)) = [] \<and>
      \<not> process_lock_taken (fst (flush a)))"
proof -
  have f: "[] \<notin> set (batches (fst (flush b)))" for b :: "'a accumulator"
    by (simp add: batches_flush)
  obtain e1 a1 where s1: "add_all xs a = (e1, a1)" by (cases "add_all xs a")
  obtain e2 a2 where s2: "flush a1 = (e2, a2)" by (cases "flush a1")
  have "[] \<notin> set (batches e1)"
    using add_all_nonempty_batches [of xs a] s1 by simp
  moreover have "[] \<notin> set (batches e2)"
    using f [of a1] s2 by simp
  ultimately have seq: "[] \<notin> set (batches (fst (add_all_then_flush xs a)))"
    using s1 s2 by (simp add: add_all_then_flush_def batches_append)
  have "[] \<notin> set (batches (fst (add x a)))"
    by (simp add: batches_add)
  moreover have "acc_list a = [] \<longrightarrow>
      flush a = ([AcquireListLock, ReleaseListLock], a) \<and>
      batches (fst (flush a)) = [] \<and>
      \<not> process_lock_taken (fst (flush a))"
    by (simp add: flush_def process_def)
  ultimately show ?thesis
    using f [of a] seq by simp
qed

theorem accumulator_no_empty_batch_witness:
  "flush (accumulator_init 3 True :: nat accumulator) =
     ([AcquireListLock, ReleaseListLock], accumulator_init 3 True) \<and>
   \<not> process_lock_taken (fst (flush (accumulator_init 3 True :: nat accumulator))) \<and>
   [] \<notin> set (batches (fst (add_all_then_flush [7, 8 :: nat] (accumulator_init 3 True))))"
  using accumulator_no_empty_batch [of "7 :: nat" "accumulator_init 3 True" "[7, 8]"]
  by (simp add: accumulator_init_def)

end
